theory Spec2Isabelle
  imports Complex_Main
begin

section \<open>JavaScript strings\<close>

text \<open>
  Strings are lists of characters, the code units below 256. The white space among them,
  for \<^verbatim>\<open>trim\<close> and the regular expression class \<^verbatim>\<open>\s\<close>, is the tab, the line feed, the
  vertical tab, the form feed, the carriage return, the space and the no-break space
  U+00A0; the other white space of the language (U+FEFF, U+2028 and so on) lies beyond
  these code units. \<^verbatim>\<open>toUpperCase\<close> and \<^verbatim>\<open>toLowerCase\<close> change the ASCII letters, which is
  what they do on ASCII text.
\<close>

definition isSpace :: "char \<Rightarrow> bool" where
  "isSpace c =
     (c \<in> set [CHR 0x09, CHR 0x0A, CHR 0x0B, CHR 0x0C, CHR 0x0D, CHR '' '', CHR 0xA0])"

definition lowerLetters :: string where
  "lowerLetters = ''abcdefghijklmnopqrstuvwxyz''"

definition upperLetters :: string where
  "upperLetters = ''ABCDEFGHIJKLMNOPQRSTUVWXYZ''"

definition upperChar :: "char \<Rightarrow> char" where
  "upperChar c = (case map_of (zip lowerLetters upperLetters) c of Some u \<Rightarrow> u | None \<Rightarrow> c)"

definition lowerChar :: "char \<Rightarrow> char" where
  "lowerChar c = (case map_of (zip upperLetters lowerLetters) c of Some u \<Rightarrow> u | None \<Rightarrow> c)"

definition toUpperCase :: "string \<Rightarrow> string" where
  "toUpperCase s = map upperChar s"

definition toLowerCase :: "string \<Rightarrow> string" where
  "toLowerCase s = map lowerChar s"

definition trim :: "string \<Rightarrow> string" where
  "trim s = rev (dropWhile isSpace (rev (dropWhile isSpace s)))"

definition startsWith :: "string \<Rightarrow> string \<Rightarrow> bool" where
  "startsWith s p = (take (length p) s = p)"

definition endsWith :: "string \<Rightarrow> string \<Rightarrow> bool" where
  "endsWith s p = (length p \<le> length s \<and> drop (length s - length p) s = p)"

fun includesStr :: "string \<Rightarrow> string \<Rightarrow> bool" where
  "includesStr [] p = (p = [])"
| "includesStr (c # s) p = (startsWith (c # s) p \<or> includesStr s p)"

text \<open>\<^verbatim>\<open>s.split(sep)\<close> for a one-character separator: never empty, \<^verbatim>\<open>"".split(sep)\<close> is \<^verbatim>\<open>[""]\<close>.\<close>

fun split :: "char \<Rightarrow> string \<Rightarrow> string list" where
  "split sep [] = [[]]"
| "split sep (c # s) =
     (if c = sep then [] # split sep s
      else (case split sep s of [] \<Rightarrow> [[c]] | l # ls \<Rightarrow> (c # l) # ls))"

text \<open>\<^verbatim>\<open>s.slice(1)\<close> and \<^verbatim>\<open>s.slice(1, -1)\<close>.\<close>

definition slice1 :: "string \<Rightarrow> string" where
  "slice1 s = drop 1 s"

definition slice1m1 :: "string \<Rightarrow> string" where
  "slice1m1 s = butlast (drop 1 s)"

text \<open>
  \<^verbatim>\<open>a || d\<close> where \<^verbatim>\<open>a\<close> is a string or \<^verbatim>\<open>undefined\<close>: the empty string and
  \<^verbatim>\<open>undefined\<close> are the falsy values.
\<close>

definition orElse :: "string option \<Rightarrow> string \<Rightarrow> string" where
  "orElse a d = (case a of None \<Rightarrow> d | Some x \<Rightarrow> if x = [] then d else x)"

definition orElseOpt :: "string option \<Rightarrow> string option \<Rightarrow> string option" where
  "orElseOpt a b = (case a of None \<Rightarrow> b | Some x \<Rightarrow> if x = [] then b else Some x)"

section \<open>Regular expressions\<close>

text \<open>
  The regular expressions of the source are written as terms of \<open>rx\<close> and run by a
  backtracking matcher that follows the ECMAScript semantics: alternatives are tried left
  to right, quantifiers are greedy, a quantifier with lower bound zero gives up an
  iteration that matched the empty string, and a capture group records the text it
  matched last. No pattern of the source has a capture group under \<^verbatim>\<open>*\<close> or \<^verbatim>\<open>+\<close>, nor a
  lazy quantifier, a back-reference or a look-around.
\<close>

datatype rx =
    Lit char
  | Cls "char list"
  | NCls "char list"
  | Space
  | Dot
  | Bol
  | Eol
  | Eps
  | Seq rx rx
  | Alt rx rx
  | Star rx
  | Opt rx
  | Grp nat rx

text \<open>With the flag \<^verbatim>\<open>i\<close> characters are compared after canonicalisation (upper case).\<close>

definition canon :: "bool \<Rightarrow> char \<Rightarrow> char" where
  "canon ic c = (if ic then upperChar c else c)"

type_synonym caps = "(nat \<times> string) list"

text \<open>
  A matcher state is the input still to read and the captures made so far.
  \<open>rx_run ic s r st\<close> lists, in the order backtracking visits them, the states in which
  \<open>r\<close> can end when started in \<open>st\<close> on the input \<open>s\<close>.
\<close>

type_synonym mstate = "string \<times> caps"

fun rx_run :: "bool \<Rightarrow> string \<Rightarrow> rx \<Rightarrow> mstate \<Rightarrow> mstate list" where
  "rx_run ic s (Lit c) (r, cs) =
     (case r of [] \<Rightarrow> [] | d # r' \<Rightarrow> if canon ic d = canon ic c then [(r', cs)] else [])"
| "rx_run ic s (Cls xs) (r, cs) =
     (case r of [] \<Rightarrow> []
      | d # r' \<Rightarrow> if canon ic d \<in> set (map (canon ic) xs) then [(r', cs)] else [])"
| "rx_run ic s (NCls xs) (r, cs) =
     (case r of [] \<Rightarrow> []
      | d # r' \<Rightarrow> if canon ic d \<in> set (map (canon ic) xs) then [] else [(r', cs)])"
| "rx_run ic s Space (r, cs) =
     (case r of [] \<Rightarrow> [] | d # r' \<Rightarrow> if isSpace d then [(r', cs)] else [])"
| "rx_run ic s Dot (r, cs) =
     (case r of [] \<Rightarrow> []
      | d # r' \<Rightarrow> if d = CHR 0x0A \<or> d = CHR 0x0D then [] else [(r', cs)])"
| "rx_run ic s Bol (r, cs) = (if length r = length s then [(r, cs)] else [])"
| "rx_run ic s Eol (r, cs) = (if r = [] then [(r, cs)] else [])"
| "rx_run ic s Eps st = [st]"
| "rx_run ic s (Seq a b) st = concat (map (rx_run ic s b) (rx_run ic s a st))"
| "rx_run ic s (Alt a b) st = rx_run ic s a st @ rx_run ic s b st"
| "rx_run ic s (Star a) (r, cs) =
     concat (map (\<lambda>st'. if length (fst st') < length r then rx_run ic s (Star a) st' else [])
                 (rx_run ic s a (r, cs))) @ [(r, cs)]"
| "rx_run ic s (Opt a) (r, cs) =
     filter (\<lambda>st'. length (fst st') < length r) (rx_run ic s a (r, cs)) @ [(r, cs)]"
| "rx_run ic s (Grp n a) (r, cs) =
     map (\<lambda>(r', cs'). (r', (n, take (length r - length r') r) # cs')) (rx_run ic s a (r, cs))"

text \<open>Abbreviations for writing patterns: a literal string, a sequence, an alternation, \<^verbatim>\<open>+\<close>.\<close>

fun Str :: "string \<Rightarrow> rx" where
  "Str [] = Eps"
| "Str [c] = Lit c"
| "Str (c # cs) = Seq (Lit c) (Str cs)"

fun Seqs :: "rx list \<Rightarrow> rx" where
  "Seqs [] = Eps"
| "Seqs [a] = a"
| "Seqs (a # as) = Seq a (Seqs as)"

fun Alts :: "rx list \<Rightarrow> rx" where
  "Alts [] = Eps"
| "Alts [a] = a"
| "Alts (a # as) = Alt a (Alts as)"

definition Plus :: "rx \<Rightarrow> rx" where
  "Plus a = Seq a (Star a)"

text \<open>The number of capture groups of a pattern (groups are numbered from 1).\<close>

fun rx_groups :: "rx \<Rightarrow> nat" where
  "rx_groups (Seq a b) = max (rx_groups a) (rx_groups b)"
| "rx_groups (Alt a b) = max (rx_groups a) (rx_groups b)"
| "rx_groups (Star a) = rx_groups a"
| "rx_groups (Opt a) = rx_groups a"
| "rx_groups (Grp n a) = max n (rx_groups a)"
| "rx_groups _ = 0"

text \<open>
  \<open>rx_search\<close> is \<^verbatim>\<open>RegExp.prototype.exec\<close> from a start position, given as the suffix
  \<open>rest\<close> of the input: the leftmost position at which the pattern matches, with the
  first way of matching there. It returns the suffix at the start of the match, the
  suffix after it and the captures.
\<close>

fun rx_search :: "bool \<Rightarrow> string \<Rightarrow> rx \<Rightarrow> string \<Rightarrow> (string \<times> string \<times> caps) option" where
  "rx_search ic s r [] =
     (case rx_run ic s r ([], []) of [] \<Rightarrow> None | (r', cs) # _ \<Rightarrow> Some ([], r', cs))"
| "rx_search ic s r (c # t) =
     (case rx_run ic s r (c # t, []) of [] \<Rightarrow> rx_search ic s r t
      | (r', cs) # _ \<Rightarrow> Some (c # t, r', cs))"

text \<open>
  The match object: its \<^verbatim>\<open>index\<close> and the array of the matched text and the groups,
  \<^verbatim>\<open>undefined\<close> (\<open>None\<close>) for a group that took no part in the match.
\<close>

record regmatch =
  m_index :: nat
  m_arr :: "string option list"

definition mkMatch :: "string \<Rightarrow> rx \<Rightarrow> string \<times> string \<times> caps \<Rightarrow> regmatch" where
  "mkMatch s r x = (case x of (st, rest', cs) \<Rightarrow>
     \<lparr>m_index = length s - length st,
      m_arr = Some (take (length st - length rest') st) # map (map_of cs) [1..<Suc (rx_groups r)]\<rparr>)"

text \<open>\<^verbatim>\<open>match[i]\<close>: \<^verbatim>\<open>undefined\<close> beyond the array.\<close>

definition grp :: "regmatch \<Rightarrow> nat \<Rightarrow> string option" where
  "grp m i = (if i < length (m_arr m) then m_arr m ! i else None)"

lemma rx_run_length:
  "st' \<in> set (rx_run ic s r st) \<Longrightarrow> length (fst st') \<le> length (fst st)"
proof (induction ic s r st arbitrary: st' rule: rx_run.induct)
  case (9 ic s a b st)
  from "9.prems" obtain m where m: "m \<in> set (rx_run ic s a st)" and st': "st' \<in> set (rx_run ic s b m)"
    by auto
  from "9.IH"(1) [OF m] "9.IH"(2) [OF m st'] show ?case by simp
next
  case (10 ic s a b st)
  from "10.prems" have "st' \<in> set (rx_run ic s a st) \<or> st' \<in> set (rx_run ic s b st)" by simp
  with "10.IH" show ?case by blast
next
  case (11 ic s a r cs)
  show ?case
  proof (cases "st' = (r, cs)")
    case True
    then show ?thesis by simp
  next
    case False
    with "11.prems" obtain m where m: "m \<in> set (rx_run ic s a (r, cs))"
      and lt: "length (fst m) < length r" and st': "st' \<in> set (rx_run ic s (Star a) m)"
      by (auto split: if_splits)
    from "11.IH"(2) [OF m lt st'] lt show ?thesis by simp
  qed
next
  case (12 ic s a r cs)
  from "12.prems" have "st' = (r, cs) \<or> length (fst st') < length r" by auto
  then show ?case by auto
next
  case (13 ic s n a r cs)
  from "13.prems" obtain m where m: "m \<in> set (rx_run ic s a (r, cs))" and "fst st' = fst m"
    by (auto split: prod.splits)
  with "13.IH" [OF m] show ?case by simp
qed (auto split: list.splits if_splits)


lemma rx_search_length:
  "rx_search ic s r rest = Some (st, rest', cs) \<Longrightarrow>
     length st \<le> length rest \<and> length rest' \<le> length st"
proof (induction rest)
  case Nil
  then have "(rest', cs) \<in> set (rx_run ic s r ([], []))" and "st = []"
    by (auto split: list.splits)
  with rx_run_length [of "(rest', cs)" ic s r "([], [])"] show ?case by simp
next
  case (Cons c t)
  show ?case
  proof (cases "rx_run ic s r (c # t, [])")
    case Nil
    with Cons.prems have "rx_search ic s r t = Some (st, rest', cs)" by simp
    with Cons.IH show ?thesis by simp
  next
    case (Cons x xs)
    with Cons.prems have "(rest', cs) \<in> set (rx_run ic s r (c # t, []))" and "st = c # t"
      by (auto split: prod.splits)
    with rx_run_length [of "(rest', cs)" ic s r "(c # t, [])"] show ?thesis by simp
  qed
qed


text \<open>
  The loop \<^verbatim>\<open>while ((match = pattern.exec(content)) !== null)\<close> over a pattern with
  the flag \<^verbatim>\<open>g\<close>: each search starts where the last match ended. After an empty match
  \<^verbatim>\<open>lastIndex\<close> does not move and the loop finds the same match for ever: the model
  returns \<open>None\<close> there.
\<close>

function rx_exec_loop :: "bool \<Rightarrow> string \<Rightarrow> rx \<Rightarrow> string \<Rightarrow> regmatch list option" where
  "rx_exec_loop ic s r rest =
     (case rx_search ic s r rest of
        None \<Rightarrow> Some []
      | Some (st, rest', cs) \<Rightarrow>
          if length rest' < length st
          then map_option (Cons (mkMatch s r (st, rest', cs))) (rx_exec_loop ic s r rest')
          else None)"
  by pat_completeness auto
termination
  by (relation "measure (\<lambda>(ic, s, r, rest). length rest)")
     (auto dest: rx_search_length)

text \<open>
  \<^verbatim>\<open>str.match(pattern)\<close> with the flag \<^verbatim>\<open>g\<close>: the texts of all matches, each search
  starting where the last match ended, one character further after an empty match.
  The empty list stands for \<^verbatim>\<open>null\<close>.
\<close>

function rx_match_g :: "bool \<Rightarrow> string \<Rightarrow> rx \<Rightarrow> string \<Rightarrow> string list" where
  "rx_match_g ic s r rest =
     (case rx_search ic s r rest of
        None \<Rightarrow> []
      | Some (st, rest', cs) \<Rightarrow>
          take (length st - length rest') st #
          (if length rest' < length st then rx_match_g ic s r rest'
           else (case st of [] \<Rightarrow> [] | c # t \<Rightarrow> rx_match_g ic s r t)))"
  by pat_completeness auto
termination
  by (relation "measure (\<lambda>(ic, s, r, rest). length rest)")
     (auto dest: rx_search_length)

text \<open>
  \<^verbatim>\<open>str.replace(pattern, callback)\<close> with the flag \<^verbatim>\<open>g\<close>: the text between the matches is
  kept and each match is replaced by what the callback returns for it. A callback
  that throws (\<open>None\<close>) makes the whole call throw.
\<close>

function rx_replace_g ::
  "bool \<Rightarrow> string \<Rightarrow> rx \<Rightarrow> (regmatch \<Rightarrow> string option) \<Rightarrow> string \<Rightarrow> string option" where
  "rx_replace_g ic s r f rest =
     (case rx_search ic s r rest of
        None \<Rightarrow> Some rest
      | Some (st, rest', cs) \<Rightarrow>
          (case f (mkMatch s r (st, rest', cs)) of
             None \<Rightarrow> None
           | Some rep \<Rightarrow>
               map_option (\<lambda>out. take (length rest - length st) rest @ rep @ out)
                 (if length rest' < length st then rx_replace_g ic s r f rest'
                  else (case st of [] \<Rightarrow> Some []
                        | c # t \<Rightarrow> map_option (Cons c) (rx_replace_g ic s r f t)))))"
  by pat_completeness auto
termination
  by (relation "measure (\<lambda>(ic, s, r, f, rest). length rest)")
     (auto dest: rx_search_length)

text \<open>\<^verbatim>\<open>str.replace(pattern, '')\<close> with the flag \<^verbatim>\<open>g\<close>: every match is deleted.\<close>

function rx_delete_g :: "bool \<Rightarrow> string \<Rightarrow> rx \<Rightarrow> string \<Rightarrow> string" where
  "rx_delete_g ic s r rest =
     (case rx_search ic s r rest of
        None \<Rightarrow> rest
      | Some (st, rest', cs) \<Rightarrow>
          take (length rest - length st) rest @
          (if length rest' < length st then rx_delete_g ic s r rest'
           else (case st of [] \<Rightarrow> [] | c # t \<Rightarrow> c # rx_delete_g ic s r t)))"
  by pat_completeness auto
termination
  by (relation "measure (\<lambda>(ic, s, r, rest). length rest)")
     (auto dest: rx_search_length)

text \<open>\<^verbatim>\<open>str.replace(pattern, '')\<close> without the flag \<^verbatim>\<open>g\<close>: the first match is deleted.\<close>

definition rx_delete_first :: "bool \<Rightarrow> rx \<Rightarrow> string \<Rightarrow> string" where
  "rx_delete_first ic r s =
     (case rx_search ic s r s of
        None \<Rightarrow> s
      | Some (st, rest', cs) \<Rightarrow> take (length s - length st) s @ rest')"

text \<open>\<^verbatim>\<open>str.match(pattern)\<close> without the flag \<^verbatim>\<open>g\<close>: the first match, or \<^verbatim>\<open>null\<close>.\<close>

definition rx_match :: "bool \<Rightarrow> rx \<Rightarrow> string \<Rightarrow> regmatch option" where
  "rx_match ic r s = map_option (mkMatch s r) (rx_search ic s r s)"

section \<open>Endpoint discovery (EndpointDiscovery.ts)\<close>

text \<open>
  The fields \<^verbatim>\<open>queryParams\<close>, \<^verbatim>\<open>bodySchema\<close> and \<^verbatim>\<open>description\<close> of the interface are
  never set by the scanner and are left out. \<open>params = None\<close> is \<^verbatim>\<open>undefined\<close>. The fields
  \<^verbatim>\<open>method\<close> and \<^verbatim>\<open>file\<close> are \<open>method_ep\<close> and \<open>file_ep\<close>.
\<close>

record DiscoveredEndpoint =
  method_ep :: string
  path :: string
  file_ep :: string
  line :: nat
  framework :: string
  params :: "string list option"

subsection \<open>The pattern table\<close>

definition sq :: char where "sq = CHR 0x27"
definition dq :: char where "dq = CHR 0x22"
definition bq :: char where "bq = CHR 0x60"

text \<open>The classes \<^verbatim>\<open>['"`]\<close> and \<^verbatim>\<open>['"]\<close> (the source writes the latter also as \<^verbatim>\<open>["']\<close>).\<close>

definition quote3 :: "char list" where "quote3 = [sq, dq, bq]"
definition quote2 :: "char list" where "quote2 = [sq, dq]"

text \<open>\<^verbatim>\<open>\s*\<close> and \<^verbatim>\<open>\s+\<close>.\<close>

definition ws :: rx where "ws = Star Space"
definition ws1 :: rx where "ws1 = Plus Space"

text \<open>\<^verbatim>\<open>['"`]([^'"`]+)['"`]\<close> and \<^verbatim>\<open>["']([^"']+)["']\<close>, the group numbered \<open>n\<close>.\<close>

definition quoted3 :: "nat \<Rightarrow> rx" where
  "quoted3 n = Seqs [Cls quote3, Grp n (Plus (NCls quote3)), Cls quote3]"

definition quoted2 :: "nat \<Rightarrow> rx" where
  "quoted2 n = Seqs [Cls quote2, Grp n (Plus (NCls quote2)), Cls quote2]"

text \<open>The verb alternations, in the order of the source.\<close>

definition verbs5 :: rx where
  "verbs5 = Alts [Str ''get'', Str ''post'', Str ''put'', Str ''patch'', Str ''delete'']"

definition verbs6 :: rx where
  "verbs6 = Alts [Str ''get'', Str ''post'', Str ''put'', Str ''patch'', Str ''delete'',
     Str ''options'']"

definition verbs7 :: rx where
  "verbs7 = Alts [Str ''get'', Str ''post'', Str ''put'', Str ''patch'', Str ''delete'',
     Str ''options'', Str ''head'']"

definition VERBS5 :: rx where
  "VERBS5 = Alts [Str ''GET'', Str ''POST'', Str ''PUT'', Str ''PATCH'', Str ''DELETE'']"

definition VERBS7 :: rx where
  "VERBS7 = Alts [Str ''GET'', Str ''POST'', Str ''PUT'', Str ''PATCH'', Str ''DELETE'',
     Str ''HEAD'', Str ''OPTIONS'']"

text \<open>
  Every pattern of the table carries the flags \<^verbatim>\<open>gi\<close>. Each definition below is one
  regular expression of \<^verbatim>\<open>patterns\<close>, in the order of the source.

  express: \<^verbatim>\<open>(?:app|router)\.(get|post|put|patch|delete|options|head)\s*\(\s*['"`]([^'"`]+)['"`]\<close>
  and \<^verbatim>\<open>(?:app|router)\.route\s*\(\s*['"`]([^'"`]+)['"`]\s*\)\s*\.(get|post|put|patch|delete)\<close>
\<close>

definition express_1 :: rx where
  "express_1 = Seqs [Alts [Str ''app'', Str ''router''], Lit CHR ''.'', Grp 1 verbs7,
     ws, Lit CHR ''('', ws, quoted3 2]"

definition express_2 :: rx where
  "express_2 = Seqs [Alts [Str ''app'', Str ''router''], Str ''.route'', ws, Lit CHR ''('', ws,
     quoted3 1, ws, Lit CHR '')'', ws, Lit CHR ''.'', Grp 2 verbs5]"

text \<open>
  fastify: \<^verbatim>\<open>fastify\.(get|post|put|patch|delete|options|head)\s*\(\s*['"`]([^'"`]+)['"`]\<close>
  and \<^verbatim>\<open>\.route\s*\(\s*\{\s*method:\s*['"`](GET|POST|PUT|PATCH|DELETE)['"`]\s*,\s*url:\s*['"`]([^'"`]+)['"`]\<close>
\<close>

definition fastify_1 :: rx where
  "fastify_1 = Seqs [Str ''fastify.'', Grp 1 verbs7, ws, Lit CHR ''('', ws, quoted3 2]"

definition fastify_2 :: rx where
  "fastify_2 = Seqs [Str ''.route'', ws, Lit CHR ''('', ws, Lit CHR ''{'', ws, Str ''method:'', ws,
     Cls quote3, Grp 1 VERBS5, Cls quote3, ws, Lit CHR '','', ws, Str ''url:'', ws, quoted3 2]"

text \<open>hono: \<^verbatim>\<open>(?:app|hono)\.(get|post|put|patch|delete|options|head)\s*\(\s*['"`]([^'"`]+)['"`]\<close>\<close>

definition hono_1 :: rx where
  "hono_1 = Seqs [Alts [Str ''app'', Str ''hono''], Lit CHR ''.'', Grp 1 verbs7,
     ws, Lit CHR ''('', ws, quoted3 2]"

text \<open>
  nestjs: \<^verbatim>\<open>@(Get|Post|Put|Patch|Delete|Options|Head)\s*\(\s*['"`]?([^'"`\)]*)?['"`]?\s*\)\<close>
  and \<^verbatim>\<open>@Controller\s*\(\s*['"`]([^'"`]+)['"`]\s*\)\<close>
\<close>

definition nestjs_1 :: rx where
  "nestjs_1 = Seqs [Lit CHR ''@'',
     Grp 1 (Alts [Str ''Get'', Str ''Post'', Str ''Put'', Str ''Patch'', Str ''Delete'',
       Str ''Options'', Str ''Head'']),
     ws, Lit CHR ''('', ws, Opt (Cls quote3), Opt (Grp 2 (Star (NCls (quote3 @ '')'')))),
     Opt (Cls quote3), ws, Lit CHR '')'']"

definition nestjs_2 :: rx where
  "nestjs_2 = Seqs [Str ''@Controller'', ws, Lit CHR ''('', ws, quoted3 1, ws, Lit CHR '')'']"

text \<open>
  nextjs: \<^verbatim>\<open>export\s+(?:async\s+)?function\s+(GET|POST|PUT|PATCH|DELETE|HEAD|OPTIONS)\<close>
  and \<^verbatim>\<open>export\s+const\s+(GET|POST|PUT|PATCH|DELETE|HEAD|OPTIONS)\s*=\<close>
\<close>

definition nextjs_1 :: rx where
  "nextjs_1 = Seqs [Str ''export'', ws1, Opt (Seq (Str ''async'') ws1), Str ''function'', ws1,
     Grp 1 VERBS7]"

definition nextjs_2 :: rx where
  "nextjs_2 = Seqs [Str ''export'', ws1, Str ''const'', ws1, Grp 1 VERBS7, ws, Lit CHR ''='']"

text \<open>
  flask: \<^verbatim>\<open>@(?:app|blueprint|bp)\.route\s*\(\s*['"`]([^'"`]+)['"`](?:\s*,\s*methods\s*=\s*\[([^\]]+)\])?\<close>
  and \<^verbatim>\<open>@(?:app|blueprint|bp)\.(get|post|put|patch|delete)\s*\(\s*['"`]([^'"`]+)['"`]\<close>
\<close>

definition flask_1 :: rx where
  "flask_1 = Seqs [Lit CHR ''@'', Alts [Str ''app'', Str ''blueprint'', Str ''bp''], Str ''.route'',
     ws, Lit CHR ''('', ws, quoted3 1,
     Opt (Seqs [ws, Lit CHR '','', ws, Str ''methods'', ws, Lit CHR ''='', ws, Lit CHR ''['',
       Grp 2 (Plus (NCls '']'')), Lit CHR '']''])]"

definition flask_2 :: rx where
  "flask_2 = Seqs [Lit CHR ''@'', Alts [Str ''app'', Str ''blueprint'', Str ''bp''], Lit CHR ''.'',
     Grp 1 verbs5, ws, Lit CHR ''('', ws, quoted3 2]"

text \<open>fastapi: \<^verbatim>\<open>@(?:app|router)\.(get|post|put|patch|delete|options|head)\s*\(\s*['"`]([^'"`]+)['"`]\<close>\<close>

definition fastapi_1 :: rx where
  "fastapi_1 = Seqs [Lit CHR ''@'', Alts [Str ''app'', Str ''router''], Lit CHR ''.'', Grp 1 verbs7,
     ws, Lit CHR ''('', ws, quoted3 2]"

text \<open>
  django: \<^verbatim>\<open>path\s*\(\s*['"`]([^'"`]+)['"`]\s*,\<close> and
  \<^verbatim>\<open>re_path\s*\(\s*r?['"`]([^'"`]+)['"`]\s*,\<close>
\<close>

definition django_1 :: rx where
  "django_1 = Seqs [Str ''path'', ws, Lit CHR ''('', ws, quoted3 1, ws, Lit CHR '','']"

definition django_2 :: rx where
  "django_2 = Seqs [Str ''re_path'', ws, Lit CHR ''('', ws, Opt (Lit CHR ''r''), quoted3 1, ws,
     Lit CHR '','']"

text \<open>
  go: \<^verbatim>\<open>\.(GET|POST|PUT|PATCH|DELETE|HEAD|OPTIONS)\s*\(\s*["']([^"']+)["']\<close>,
  \<^verbatim>\<open>HandleFunc\s*\(\s*["']([^"']+)["']\<close>, \<^verbatim>\<open>Handle\s*\(\s*["']([^"']+)["']\<close> and
  \<^verbatim>\<open>r\.Route\s*\(\s*["']([^"']+)["']\<close>
\<close>

definition go_1 :: rx where
  "go_1 = Seqs [Lit CHR ''.'', Grp 1 VERBS7, ws, Lit CHR ''('', ws, quoted2 2]"

definition go_2 :: rx where
  "go_2 = Seqs [Str ''HandleFunc'', ws, Lit CHR ''('', ws, quoted2 1]"

definition go_3 :: rx where
  "go_3 = Seqs [Str ''Handle'', ws, Lit CHR ''('', ws, quoted2 1]"

definition go_4 :: rx where
  "go_4 = Seqs [Str ''r.Route'', ws, Lit CHR ''('', ws, quoted2 1]"

text \<open>
  spring:
  \<^verbatim>\<open>@(GetMapping|PostMapping|PutMapping|PatchMapping|DeleteMapping)\s*\(\s*(?:value\s*=\s*)?["']?([^"'\)]+)?["']?\s*\)\<close>
  and
  \<^verbatim>\<open>@RequestMapping\s*\(\s*(?:value\s*=\s*)?["']([^"']+)["'](?:\s*,\s*method\s*=\s*RequestMethod\.(GET|POST|PUT|PATCH|DELETE))?\<close>
\<close>

definition spring_1 :: rx where
  "spring_1 = Seqs [Lit CHR ''@'',
     Grp 1 (Alts [Str ''GetMapping'', Str ''PostMapping'', Str ''PutMapping'',
       Str ''PatchMapping'', Str ''DeleteMapping'']),
     ws, Lit CHR ''('', ws, Opt (Seqs [Str ''value'', ws, Lit CHR ''='', ws]),
     Opt (Cls quote2), Opt (Grp 2 (Plus (NCls (quote2 @ '')'')))), Opt (Cls quote2),
     ws, Lit CHR '')'']"

definition spring_2 :: rx where
  "spring_2 = Seqs [Str ''@RequestMapping'', ws, Lit CHR ''('', ws,
     Opt (Seqs [Str ''value'', ws, Lit CHR ''='', ws]), quoted2 1,
     Opt (Seqs [ws, Lit CHR '','', ws, Str ''method'', ws, Lit CHR ''='', ws,
       Str ''RequestMethod.'', Grp 2 VERBS5])]"

text \<open>
  rust: \<^verbatim>\<open>#\[(?:get|post|put|patch|delete)\s*\(\s*["']([^"']+)["']\s*\)\]\<close> and
  \<^verbatim>\<open>\.route\s*\(\s*["']([^"']+)["']\s*,\s*(?:get|post|put|patch|delete)\s*\(\<close>
\<close>

definition rust_1 :: rx where
  "rust_1 = Seqs [Str ''#['', verbs5, ws, Lit CHR ''('', ws, quoted2 1, ws, Str '')]'']"

definition rust_2 :: rx where
  "rust_2 = Seqs [Str ''.route'', ws, Lit CHR ''('', ws, quoted2 1, ws, Lit CHR '','', ws, verbs5,
     ws, Lit CHR ''('']"

text \<open>
  laravel: \<^verbatim>\<open>Route::(get|post|put|patch|delete|options)\s*\(\s*['"]([^'"]+)['"]\<close> and
  \<^verbatim>\<open>->(?:get|post|put|patch|delete)\s*\(\s*['"]([^'"]+)['"]\<close>
\<close>

definition laravel_1 :: rx where
  "laravel_1 = Seqs [Str ''Route::'', Grp 1 verbs6, ws, Lit CHR ''('', ws, quoted2 2]"

definition laravel_2 :: rx where
  "laravel_2 = Seqs [Str ''->'', verbs5, ws, Lit CHR ''('', ws, quoted2 1]"

text \<open>koa: \<^verbatim>\<open>router\.(get|post|put|patch|delete|options|head)\s*\(\s*['"`]([^'"`]+)['"`]\<close>\<close>

definition koa_1 :: rx where
  "koa_1 = Seqs [Str ''router.'', Grp 1 verbs7, ws, Lit CHR ''('', ws, quoted3 2]"

definition patterns :: "(string \<times> rx list) list" where
  "patterns =
     [(''express'', [express_1, express_2]),
      (''fastify'', [fastify_1, fastify_2]),
      (''hono'', [hono_1]),
      (''nestjs'', [nestjs_1, nestjs_2]),
      (''nextjs'', [nextjs_1, nextjs_2]),
      (''flask'', [flask_1, flask_2]),
      (''fastapi'', [fastapi_1]),
      (''django'', [django_1, django_2]),
      (''go'', [go_1, go_2, go_3, go_4]),
      (''spring'', [spring_1, spring_2]),
      (''rust'', [rust_1, rust_2]),
      (''laravel'', [laravel_1, laravel_2]),
      (''koa'', [koa_1])]"

subsection \<open>Framework detection\<close>

text \<open>
  \<^verbatim>\<open>path.extname\<close> for the path of a regular file: the text from the last dot of the last
  path component, empty when that component has no dot but a leading one.
\<close>

definition extname :: "string \<Rightarrow> string" where
  "extname p =
     (let b = rev (takeWhile (\<lambda>c. c \<noteq> CHR ''/'') (rev p));
          e = rev (takeWhile (\<lambda>c. c \<noteq> CHR ''.'') (rev b))
      in if CHR ''.'' \<notin> set b \<or> length e + 1 = length b then [] else CHR ''.'' # e)"

definition detectFrameworks :: "string \<Rightarrow> string \<Rightarrow> string list" where
  "detectFrameworks content ext =
     (if ext \<in> set [''.js'', ''.ts'', ''.jsx'', ''.tsx''] then
        (if includesStr content ''express''
            \<or> includesStr content (''require('' @ [sq] @ ''express'' @ [sq] @ '')'')
            \<or> includesStr content (''from '' @ [dq] @ ''express'' @ [dq])
         then [''express''] else []) @
        (if includesStr content ''fastify''
            \<or> includesStr content (''require('' @ [sq] @ ''fastify'' @ [sq] @ '')'')
         then [''fastify''] else []) @
        (if includesStr content ''hono''
            \<or> includesStr content (''from '' @ [sq] @ ''hono'' @ [sq])
         then [''hono''] else []) @
        (if includesStr content ''@nestjs'' \<or> includesStr content ''@Controller''
            \<or> includesStr content ''@Get''
         then [''nestjs''] else []) @
        (if includesStr content ''export function GET''
            \<or> includesStr content ''export const GET''
            \<or> includesStr content ''export async function GET''
         then [''nextjs''] else []) @
        (if includesStr content ''koa-router'' \<or> includesStr content ''@koa/router''
         then [''koa''] else [])
      else []) @
     (if ext = ''.py'' then
        (if includesStr content ''flask'' \<or> includesStr content ''@app.route''
            \<or> includesStr content ''@bp.route''
         then [''flask''] else []) @
        (if includesStr content ''fastapi'' \<or> includesStr content ''FastAPI''
            \<or> includesStr content ''@app.get''
         then [''fastapi''] else []) @
        (if includesStr content ''django'' \<or> includesStr content ''urlpatterns''
            \<or> includesStr content ''path(''
         then [''django''] else [])
      else []) @
     (if ext = ''.go'' then [''go''] else []) @
     (if ext = ''.java'' then
        (if includesStr content ''@GetMapping'' \<or> includesStr content ''@PostMapping''
            \<or> includesStr content ''@RequestMapping''
            \<or> includesStr content ''springframework''
         then [''spring''] else [])
      else []) @
     (if ext = ''.rs'' then [''rust''] else []) @
     (if ext = ''.php'' then
        (if includesStr content ''Route::'' \<or> includesStr content ''Laravel''
         then [''laravel''] else [])
      else [])"

subsection \<open>From a match to an endpoint\<close>

text \<open>
  \<^verbatim>\<open>extractPathParams\<close>: three passes over the path, one per parameter syntax, with
  \<^verbatim>\<open>/:([^/]+)/g\<close>, \<^verbatim>\<open>/[{[]([^\]}]+)[}\]]/g\<close> and \<^verbatim>\<open>/<([^>]+)>/g\<close>; the names found by each
  pass are appended to \<^verbatim>\<open>params\<close>.
\<close>

definition colon_rx :: rx where
  "colon_rx = Seqs [Lit CHR '':'', Grp 1 (Plus (NCls ''/''))]"

definition bracket_rx :: rx where
  "bracket_rx = Seqs [Cls ''{['', Grp 1 (Plus (NCls '']}'')), Cls ''}]'']"

definition angle_rx :: rx where
  "angle_rx = Seqs [Lit CHR ''<'', Grp 1 (Plus (NCls ''>'')), Lit CHR ''>'']"

definition extractPathParams :: "string \<Rightarrow> string list" where
  "extractPathParams routePath =
     map slice1 (rx_match_g False routePath colon_rx routePath) @
     map slice1m1 (rx_match_g False routePath bracket_rx routePath) @
     map slice1m1 (rx_match_g False routePath angle_rx routePath)"

text \<open>
  \<^verbatim>\<open>extractNextJsPath\<close>, with \<^verbatim>\<open>/(?:pages|app)(\/api\/[^.]+)/\<close>, \<^verbatim>\<open>/\/route$/\<close> and
  \<^verbatim>\<open>/\/index$/\<close>.
\<close>

definition nextjs_path_rx :: rx where
  "nextjs_path_rx = Seqs [Alts [Str ''pages'', Str ''app''],
     Grp 1 (Seqs [Str ''/api/'', Plus (NCls ''.'')])]"

definition route_end_rx :: rx where
  "route_end_rx = Seqs [Str ''/route'', Eol]"

definition index_end_rx :: rx where
  "index_end_rx = Seqs [Str ''/index'', Eol]"

definition extractNextJsPath :: "string \<Rightarrow> string" where
  "extractNextJsPath filePath =
     (case rx_match False nextjs_path_rx filePath of
        Some m \<Rightarrow>
          (case grp m 1 of
             Some routePath \<Rightarrow>
               orElse (Some (rx_delete_first False index_end_rx
                               (rx_delete_first False route_end_rx routePath))) ''/api''
           | None \<Rightarrow> ''/api'')
      | None \<Rightarrow> ''/api'')"

text \<open>
  The \<^verbatim>\<open>switch\<close> of \<^verbatim>\<open>extractEndpointFromMatch\<close>: the method and the raw path for a match
  of a pattern of the given framework, \<open>None\<close> where the source returns \<^verbatim>\<open>null\<close>.
  \<^verbatim>\<open>x?.toUpperCase() || 'GET'\<close> is \<open>orElse (map_option toUpperCase x) ''GET''\<close>.
\<close>

definition verb_rx :: rx where
  "verb_rx = verbs5"

definition quote2_rx :: rx where
  "quote2_rx = Cls quote2"

definition upperOr :: "string option \<Rightarrow> string \<Rightarrow> string" where
  "upperOr x d = orElse (map_option toUpperCase x) d"

definition truthy :: "string option \<Rightarrow> bool" where
  "truthy x = (case x of None \<Rightarrow> False | Some v \<Rightarrow> v \<noteq> [])"

definition methodAndPath :: "regmatch \<Rightarrow> string \<Rightarrow> string \<Rightarrow> (string \<times> string) option" where
  "methodAndPath m fw filePath =
     (if fw \<in> set [''express'', ''fastify'', ''hono'', ''koa'', ''fastapi''] then
        Some (upperOr (grp m 1) ''GET'', orElse (grp m 2) ''/'')
      else if fw = ''nestjs'' then
        (let decorator = map_option toLowerCase (grp m 1) in
         if decorator = Some ''controller'' then None
         else Some (upperOr decorator ''GET'', orElse (grp m 2) ''/''))
      else if fw = ''nextjs'' then
        Some (upperOr (grp m 1) ''GET'', extractNextJsPath filePath)
      else if fw = ''flask'' then
        Some (if truthy (grp m 2)
              then (let g2 = orElse (grp m 2) [];
                        methods = map trim (split CHR '','' (rx_delete_g False g2 quote2_rx g2))
                    in upperOr (case methods of [] \<Rightarrow> None | x # _ \<Rightarrow> Some x) ''GET'')
              else upperOr (grp m 1) ''GET'',
              orElse (orElseOpt (grp m 1) (grp m 2)) ''/'')
      else if fw = ''django'' then
        Some (''GET'', orElse (grp m 1) ''/'')
      else if fw = ''go'' then
        (if truthy (grp m 1) \<and> \<not> startsWith (orElse (grp m 1) []) ''/''
         then Some (toUpperCase (orElse (grp m 1) []), orElse (grp m 2) ''/'')
         else Some (''GET'', orElse (grp m 1) ''/''))
      else if fw = ''spring'' then
        (let mapping = map_option toLowerCase (grp m 1);
             has = (\<lambda>v. case mapping of None \<Rightarrow> False | Some x \<Rightarrow> includesStr x v)
         in Some (if has ''get'' then ''GET''
                  else if has ''post'' then ''POST''
                  else if has ''put'' then ''PUT''
                  else if has ''patch'' then ''PATCH''
                  else if has ''delete'' then ''DELETE''
                  else upperOr (grp m 3) ''GET'',
                  orElse (grp m 2) ''/''))
      else if fw = ''rust'' then
        Some (upperOr (case rx_match True verb_rx (orElse (grp m 0) []) of
                         None \<Rightarrow> None | Some v \<Rightarrow> grp v 0) ''GET'',
              orElse (grp m 1) ''/'')
      else if fw = ''laravel'' then
        Some (upperOr (grp m 1) ''GET'', orElse (grp m 2) ''/'')
      else None)"

text \<open>
  The clean-up \<^verbatim>\<open>routePath.replace(/^['"`]|['"`]$/g, '').trim()\<close>, the leading slash and
  the parameters. The line is set by the caller.
\<close>

definition cleanup_rx :: rx where
  "cleanup_rx = Alt (Seq Bol (Cls quote3)) (Seq (Cls quote3) Eol)"

definition extractEndpointFromMatch ::
  "regmatch \<Rightarrow> string \<Rightarrow> string \<Rightarrow> DiscoveredEndpoint option" where
  "extractEndpointFromMatch m fw filePath =
     (case methodAndPath m fw filePath of
        None \<Rightarrow> None
      | Some (meth, raw) \<Rightarrow>
          (let cleaned = trim (rx_delete_g False raw cleanup_rx raw);
               routePath = (if startsWith cleaned ''/'' then cleaned else CHR ''/'' # cleaned);
               ps = extractPathParams routePath
           in Some \<lparr>method_ep = meth, path = routePath, file_ep = filePath, line = 0,
                     framework = fw, params = (if ps \<noteq> [] then Some ps else None)\<rparr>))"

subsection \<open>Scanning a file\<close>

text \<open>
  The line of a match: the lengths of the lines, each plus one for the newline, are
  added up until the sum exceeds the index of the match; 0 if it never does.
\<close>

fun lineLoop :: "string list \<Rightarrow> nat \<Rightarrow> nat \<Rightarrow> nat \<Rightarrow> nat" where
  "lineLoop [] i charCount matchIndex = 0"
| "lineLoop (l # ls) i charCount matchIndex =
     (if charCount + (length l + 1) > matchIndex then i
      else lineLoop ls (Suc i) (charCount + (length l + 1)) matchIndex)"

definition lineNumber :: "string list \<Rightarrow> nat \<Rightarrow> nat" where
  "lineNumber lines matchIndex = lineLoop lines 0 0 matchIndex"

text \<open>Running the parts of a loop one after the other; \<open>None\<close> when one of them does not return.\<close>

fun collectAll :: "('a \<Rightarrow> 'b list option) \<Rightarrow> 'a list \<Rightarrow> 'b list option" where
  "collectAll f [] = Some []"
| "collectAll f (x # xs) =
     (case f x of None \<Rightarrow> None | Some ys \<Rightarrow> map_option (append ys) (collectAll f xs))"

definition scanPattern ::
  "string \<Rightarrow> string \<Rightarrow> string list \<Rightarrow> string \<Rightarrow> rx \<Rightarrow> DiscoveredEndpoint list option" where
  "scanPattern content filePath lines fw pattern =
     map_option
       (\<lambda>ms. concat (map (\<lambda>m. case extractEndpointFromMatch m fw filePath of
                                 None \<Rightarrow> []
                               | Some endpoint \<Rightarrow>
                                   [endpoint\<lparr>line := lineNumber lines (m_index m)\<rparr>]) ms))
       (rx_exec_loop True content pattern content)"

definition parseFileForEndpoints :: "string \<Rightarrow> string \<Rightarrow> DiscoveredEndpoint list option" where
  "parseFileForEndpoints content filePath =
     (let lines = split CHR 0x0A content;
          ext = toLowerCase (extname filePath)
      in collectAll
           (\<lambda>fw. case map_of patterns fw of
                    None \<Rightarrow> Some []
                  | Some frameworkPatterns \<Rightarrow>
                      collectAll (scanPattern content filePath lines fw) frameworkPatterns)
           (detectFrameworks content ext))"

subsection \<open>Deduplication and the whole scan\<close>

definition endpointKey :: "DiscoveredEndpoint \<Rightarrow> string" where
  "endpointKey ep = method_ep ep @ '':'' @ path ep @ '':'' @ file_ep ep"

fun dedupFilter :: "string set \<Rightarrow> DiscoveredEndpoint list \<Rightarrow> DiscoveredEndpoint list" where
  "dedupFilter seen [] = []"
| "dedupFilter seen (ep # eps) =
     (if endpointKey ep \<in> seen then dedupFilter seen eps
      else ep # dedupFilter (insert (endpointKey ep) seen) eps)"

definition deduplicateEndpoints :: "DiscoveredEndpoint list \<Rightarrow> DiscoveredEndpoint list" where
  "deduplicateEndpoints endpoints = dedupFilter {} endpoints"

text \<open>
  \<^verbatim>\<open>discoverEndpoints\<close> on the source files of the workspace, each with what
  \<^verbatim>\<open>readFileSync\<close> gives for it (\<open>None\<close> when it throws: the file is skipped), and on
  the endpoints of the file-based pass \<^verbatim>\<open>discoverNextJsRoutes\<close>. The walks over the file
  system that produce the two are not modelled.
\<close>

definition discoverEndpoints ::
  "(string \<times> string option) list \<Rightarrow> DiscoveredEndpoint list \<Rightarrow> DiscoveredEndpoint list option" where
  "discoverEndpoints files nextjsEndpoints =
     map_option (\<lambda>endpoints. deduplicateEndpoints (endpoints @ nextjsEndpoints))
       (collectAll (\<lambda>(f, c). case c of None \<Rightarrow> Some []
                                | Some content \<Rightarrow> parseFileForEndpoints content f) files)"

subsection \<open>Cursor lookup\<close>

text \<open>
  The loop of \<^verbatim>\<open>findEndpointAtPosition\<close>. The pair of \<^verbatim>\<open>closestEndpoint\<close> and
  \<^verbatim>\<open>closestDistance\<close> is \<open>None\<close> while they are \<^verbatim>\<open>null\<close> and \<^verbatim>\<open>Infinity\<close>.
\<close>

fun closestLoop ::
  "nat \<Rightarrow> (DiscoveredEndpoint \<times> nat) option \<Rightarrow> DiscoveredEndpoint list \<Rightarrow>
   (DiscoveredEndpoint \<times> nat) option" where
  "closestLoop positionLine closest [] = closest"
| "closestLoop positionLine closest (endpoint # endpoints) =
     closestLoop positionLine
       (if line endpoint \<le> positionLine then
          (let distance = positionLine - line endpoint in
           if (case closest of None \<Rightarrow> True | Some (_, closestDistance) \<Rightarrow> distance < closestDistance)
           then Some (endpoint, distance) else closest)
        else closest)
       endpoints"

definition endpointAtLine :: "DiscoveredEndpoint list \<Rightarrow> nat \<Rightarrow> DiscoveredEndpoint option" where
  "endpointAtLine endpoints positionLine =
     (case closestLoop positionLine None endpoints of
        Some (closestEndpoint, closestDistance) \<Rightarrow>
          if closestDistance \<le> 10 then Some closestEndpoint else None
      | None \<Rightarrow> None)"

definition findEndpointAtPosition ::
  "string \<Rightarrow> string \<Rightarrow> nat \<Rightarrow> DiscoveredEndpoint option option" where
  "findEndpointAtPosition content filePath positionLine =
     map_option (\<lambda>endpoints. endpointAtLine endpoints positionLine)
       (parseFileForEndpoints content filePath)"

section \<open>Environments (EnvironmentManager.ts)\<close>

text \<open>
  The interface \<^verbatim>\<open>Environment\<close>; the field \<^verbatim>\<open>id\<close> is \<open>id_env\<close>. The types of the name and
  of the variables are parameters: they are \<^verbatim>\<open>string\<close> and \<^verbatim>\<open>Record<string, string>\<close>
  for the typed callers, and JSON values where \<^verbatim>\<open>importEnvironment\<close> passes on what
  \<^verbatim>\<open>JSON.parse\<close> returned.
\<close>

record ('n, 'v) Environment =
  id_env :: string
  name :: 'n
  variables :: 'v
  isActive :: bool
  createdAt :: nat
  updatedAt :: nat

text \<open>
  The store behind \<^verbatim>\<open>context.globalState\<close> under the key \<^verbatim>\<open>apiTester.environments\<close>.
  \<^verbatim>\<open>globalState.get\<close> hands out the array the store keeps in memory, not a copy of it, so
  an assignment to a field of one of its objects is seen by every later \<^verbatim>\<open>get\<close>, with or
  without a call of \<^verbatim>\<open>update\<close>: \<open>live\<close> is that array. \<open>persisted\<close> is the value last
  handed to \<^verbatim>\<open>globalState.update\<close>, which is what is written to disk.
\<close>

record ('n, 'v) globalState =
  live :: "('n, 'v) Environment list"
  persisted :: "('n, 'v) Environment list"

definition getEnvironments :: "('n, 'v) globalState \<Rightarrow> ('n, 'v) Environment list" where
  "getEnvironments st = live st"

definition update :: "('n, 'v) Environment list \<Rightarrow> ('n, 'v) globalState" where
  "update environments = \<lparr>live = environments, persisted = environments\<rparr>"

definition getActiveEnvironment :: "('n, 'v) globalState \<Rightarrow> ('n, 'v) Environment option" where
  "getActiveEnvironment st = find isActive (getEnvironments st)"

text \<open>
  \<^verbatim>\<open>createEnvironment\<close>. The identifier made by \<^verbatim>\<open>generateId\<close> (from the clock and
  \<^verbatim>\<open>Math.random\<close>) and the time \<^verbatim>\<open>Date.now()\<close> are parameters, here and below.
\<close>

definition createEnvironment ::
  "string \<Rightarrow> nat \<Rightarrow> 'n \<Rightarrow> 'v \<Rightarrow> ('n, 'v) globalState \<Rightarrow>
   ('n, 'v) Environment \<times> ('n, 'v) globalState" where
  "createEnvironment newId now nm vars st =
     (let environments = getEnvironments st;
          newEnv = \<lparr>id_env = newId, name = nm, variables = vars,
                    isActive = (length environments = 0), createdAt = now, updatedAt = now\<rparr>
      in (newEnv, update (environments @ [newEnv])))"

text \<open>\<^verbatim>\<open>Partial<Environment>\<close>: each field present or absent.\<close>

record ('n, 'v) EnvironmentUpdates =
  u_id :: "string option"
  u_name :: "'n option"
  u_variables :: "'v option"
  u_isActive :: "bool option"
  u_createdAt :: "nat option"
  u_updatedAt :: "nat option"

text \<open>\<^verbatim>\<open>{ ...environments[index], ...updates, updatedAt: Date.now() }\<close>\<close>

definition spreadUpdates ::
  "('n, 'v) Environment \<Rightarrow> ('n, 'v) EnvironmentUpdates \<Rightarrow> nat \<Rightarrow> ('n, 'v) Environment" where
  "spreadUpdates env updates now =
     \<lparr>id_env = (case u_id updates of Some x \<Rightarrow> x | None \<Rightarrow> id_env env),
      name = (case u_name updates of Some x \<Rightarrow> x | None \<Rightarrow> name env),
      variables = (case u_variables updates of Some x \<Rightarrow> x | None \<Rightarrow> variables env),
      isActive = (case u_isActive updates of Some x \<Rightarrow> x | None \<Rightarrow> isActive env),
      createdAt = (case u_createdAt updates of Some x \<Rightarrow> x | None \<Rightarrow> createdAt env),
      updatedAt = now\<rparr>"

text \<open>\<^verbatim>\<open>findIndex\<close>, with \<open>None\<close> for \<^verbatim>\<open>-1\<close>.\<close>

fun findIndex :: "('a \<Rightarrow> bool) \<Rightarrow> 'a list \<Rightarrow> nat option" where
  "findIndex P [] = None"
| "findIndex P (x # xs) = (if P x then Some 0 else map_option Suc (findIndex P xs))"

definition updateEnvironment ::
  "string \<Rightarrow> ('n, 'v) EnvironmentUpdates \<Rightarrow> nat \<Rightarrow> ('n, 'v) globalState \<Rightarrow>
   ('n, 'v) Environment option \<times> ('n, 'v) globalState" where
  "updateEnvironment ident updates now st =
     (let environments = getEnvironments st in
      case findIndex (\<lambda>e. id_env e = ident) environments of
        None \<Rightarrow> (None, st)
      | Some index \<Rightarrow>
          (let environments' =
                 environments[index := spreadUpdates (environments ! index) updates now]
           in (Some (environments' ! index), update environments')))"

text \<open>
  \<^verbatim>\<open>setActiveEnvironment\<close>: the loop writes the flag of every environment of the array
  it got from the store and records whether one had the identifier; \<^verbatim>\<open>update\<close> is called
  only if one had.
\<close>

fun setActiveLoop ::
  "string \<Rightarrow> bool \<Rightarrow> ('n, 'v) Environment list \<Rightarrow> ('n, 'v) Environment list \<times> bool" where
  "setActiveLoop ident found [] = ([], found)"
| "setActiveLoop ident found (env # envs) =
     (if id_env env = ident
      then (case setActiveLoop ident True envs of
              (envs', found') \<Rightarrow> (env\<lparr>isActive := True\<rparr> # envs', found'))
      else (case setActiveLoop ident found envs of
              (envs', found') \<Rightarrow> (env\<lparr>isActive := False\<rparr> # envs', found')))"

definition setActiveEnvironment ::
  "string \<Rightarrow> ('n, 'v) globalState \<Rightarrow> bool \<times> ('n, 'v) globalState" where
  "setActiveEnvironment ident st =
     (case setActiveLoop ident False (getEnvironments st) of
        (environments, found) \<Rightarrow>
          (found, if found then update environments else st\<lparr>live := environments\<rparr>))"

definition deleteEnvironment ::
  "string \<Rightarrow> ('n, 'v) globalState \<Rightarrow> bool \<times> ('n, 'v) globalState" where
  "deleteEnvironment ident st =
     (let environments = getEnvironments st;
          filtered = filter (\<lambda>e. id_env e \<noteq> ident) environments
      in if length filtered = length environments then (False, st)
         else (True,
               update (case filtered of
                         [] \<Rightarrow> []
                       | e # es \<Rightarrow>
                           if \<not> list_ex isActive filtered then e\<lparr>isActive := True\<rparr> # es
                           else filtered)))"

text \<open>
  A \<^verbatim>\<open>Record<string, string>\<close> is an ordinary object: the map from its own keys to their
  values, with \<^verbatim>\<open>Object.prototype\<close> behind it. \<open>objectPrototype\<close> lists the members with a
  string key that every such object inherits, each with the text \<^verbatim>\<open>ToString\<close> gives for
  it: a built-in function prints as V8, the engine of the extension host, prints it,
  and \<^verbatim>\<open>__proto__\<close> is an accessor whose getter returns \<^verbatim>\<open>Object.prototype\<close> itself.

  \<^verbatim>\<open>obj[key]\<close> reads the own property if there is one and the inherited member
  otherwise. \<^verbatim>\<open>obj[key] = value\<close> creates or overwrites an own property, except that for
  the key \<^verbatim>\<open>__proto__\<close>, when the object has no own property of that name, it calls the
  inherited setter, which ignores a value that is a string. \<^verbatim>\<open>key in obj\<close> holds for own
  and inherited keys alike.
\<close>

definition objectPrototype :: "(string \<times> string) list" where
  "objectPrototype =
     [(''constructor'', ''function Object() { [native code] }''),
      (''__defineGetter__'', ''function __defineGetter__() { [native code] }''),
      (''__defineSetter__'', ''function __defineSetter__() { [native code] }''),
      (''hasOwnProperty'', ''function hasOwnProperty() { [native code] }''),
      (''__lookupGetter__'', ''function __lookupGetter__() { [native code] }''),
      (''__lookupSetter__'', ''function __lookupSetter__() { [native code] }''),
      (''isPrototypeOf'', ''function isPrototypeOf() { [native code] }''),
      (''propertyIsEnumerable'', ''function propertyIsEnumerable() { [native code] }''),
      (''toString'', ''function toString() { [native code] }''),
      (''valueOf'', ''function valueOf() { [native code] }''),
      (''__proto__'', ''[object Object]''),
      (''toLocaleString'', ''function toLocaleString() { [native code] }'')]"

definition getProperty :: "(string \<rightharpoonup> string) \<Rightarrow> string \<Rightarrow> string option" where
  "getProperty obj key =
     (case obj key of Some v \<Rightarrow> Some v | None \<Rightarrow> map_of objectPrototype key)"

definition setProperty :: "(string \<rightharpoonup> string) \<Rightarrow> string \<Rightarrow> string \<Rightarrow> (string \<rightharpoonup> string)" where
  "setProperty obj key val =
     (if key = ''__proto__'' \<and> obj key = None then obj else obj(key \<mapsto> val))"

definition hasProperty :: "(string \<rightharpoonup> string) \<Rightarrow> string \<Rightarrow> bool" where
  "hasProperty obj key = (obj key \<noteq> None \<or> map_of objectPrototype key \<noteq> None)"

definition setVariable ::
  "string \<Rightarrow> string \<Rightarrow> string \<Rightarrow> nat \<Rightarrow> ('n, string \<rightharpoonup> string) globalState \<Rightarrow>
   bool \<times> ('n, string \<rightharpoonup> string) globalState" where
  "setVariable envId key val now st =
     (let environments = getEnvironments st in
      case findIndex (\<lambda>e. id_env e = envId) environments of
        None \<Rightarrow> (False, st)
      | Some i \<Rightarrow>
          (let env = environments ! i in
           (True, update (environments[i := env\<lparr>variables := setProperty (variables env) key val,
                                                 updatedAt := now\<rparr>]))))"

definition deleteVariable ::
  "string \<Rightarrow> string \<Rightarrow> nat \<Rightarrow> ('n, string \<rightharpoonup> string) globalState \<Rightarrow>
   bool \<times> ('n, string \<rightharpoonup> string) globalState" where
  "deleteVariable envId key now st =
     (let environments = getEnvironments st in
      case findIndex (\<lambda>e. id_env e = envId) environments of
        None \<Rightarrow> (False, st)
      | Some i \<Rightarrow>
          (let env = environments ! i in
           if \<not> hasProperty (variables env) key then (False, st)
           else (True, update (environments[i := env\<lparr>variables := (variables env)(key := None),
                                                      updatedAt := now\<rparr>]))))"

text \<open>The decimal digits of a number, for \<^verbatim>\<open>`file-${sourceFile}-${Date.now()}`\<close>.\<close>

fun showNat :: "nat \<Rightarrow> string" where
  "showNat n =
     (if n < 10 then [''0123456789'' ! n]
      else showNat (n div 10) @ [''0123456789'' ! (n mod 10)])"

definition createOrUpdateFromFile ::
  "string \<Rightarrow> 'v \<Rightarrow> string \<Rightarrow> nat \<Rightarrow> (string, 'v) globalState \<Rightarrow> (string, 'v) globalState" where
  "createOrUpdateFromFile nm vars sourceFile now st =
     (let environments = getEnvironments st in
      case findIndex (\<lambda>e. name e = ''[File] '' @ nm) environments of
        Some i \<Rightarrow>
          update (environments[i := (environments ! i)\<lparr>variables := vars, updatedAt := now\<rparr>])
      | None \<Rightarrow>
          update (environments @
            [\<lparr>id_env = ''file-'' @ sourceFile @ ''-'' @ showNat now, name = ''[File] '' @ nm,
              variables = vars, isActive = False, createdAt = now, updatedAt = now\<rparr>]))"

subsection \<open>Reading a .env file\<close>

text \<open>
  \<^verbatim>\<open>parseEnvFile\<close>, with \<^verbatim>\<open>/^([^=]+)=(.*)$/\<close>. The result is \<open>None\<close> if \<^verbatim>\<open>trim\<close> were
  called on a group that is \<^verbatim>\<open>undefined\<close>.
\<close>

definition env_line_rx :: rx where
  "env_line_rx = Seqs [Bol, Grp 1 (Plus (NCls ''='')), Lit CHR ''='', Grp 2 (Star Dot), Eol]"

definition stripQuotes :: "string \<Rightarrow> string" where
  "stripQuotes v =
     (if (startsWith v [dq] \<and> endsWith v [dq]) \<or> (startsWith v [sq] \<and> endsWith v [sq])
      then slice1m1 v else v)"

fun parseEnvLoop :: "(string \<rightharpoonup> string) \<Rightarrow> string list \<Rightarrow> (string \<rightharpoonup> string) option" where
  "parseEnvLoop vars [] = Some vars"
| "parseEnvLoop vars (l # ls) =
     (let trimmed = trim l in
      if trimmed = [] \<or> startsWith trimmed ''#'' then parseEnvLoop vars ls
      else (case rx_match False env_line_rx trimmed of
              None \<Rightarrow> parseEnvLoop vars ls
            | Some m \<Rightarrow>
                (case (grp m 1, grp m 2) of
                   (Some g1, Some g2) \<Rightarrow>
                     parseEnvLoop (setProperty vars (trim g1) (stripQuotes (trim g2))) ls
                 | _ \<Rightarrow> None)))"

definition parseEnvFile :: "string \<Rightarrow> (string \<rightharpoonup> string) option" where
  "parseEnvFile content = parseEnvLoop Map.empty (split CHR 0x0A content)"

subsection \<open>Interpolation\<close>

text \<open>
  \<^verbatim>\<open>interpolate\<close>, with \<^verbatim>\<open>/\{\{([^}]+)\}\}|\$\{([^}]+)\}/g\<close>. The merged object
  \<^verbatim>\<open>{ ...(activeEnv?.variables || {}), ...additionalVars }\<close> has the own keys of the active
  environment overridden by those of the additional variables, and \<^verbatim>\<open>Object.prototype\<close>
  behind it. The callback throws (\<open>None\<close>) if both groups are \<^verbatim>\<open>undefined\<close>; what it
  returns goes through \<^verbatim>\<open>ToString\<close>.
\<close>

definition placeholder_rx :: rx where
  "placeholder_rx =
     Alt (Seqs [Str ''{{'', Grp 1 (Plus (NCls ''}'')), Str ''}}''])
         (Seqs [Str ''${'', Grp 2 (Plus (NCls ''}'')), Lit CHR ''}''])"

definition substitute :: "(string \<rightharpoonup> string) \<Rightarrow> regmatch \<Rightarrow> string option" where
  "substitute vars m =
     (case orElseOpt (grp m 1) (grp m 2) of
        None \<Rightarrow> None
      | Some v \<Rightarrow>
          (case getProperty vars (trim v) of
             Some val \<Rightarrow> Some val
           | None \<Rightarrow> grp m 0))"

definition interpolate ::
  "('n, string \<rightharpoonup> string) globalState \<Rightarrow> string \<Rightarrow> (string \<rightharpoonup> string) \<Rightarrow> string option" where
  "interpolate st text additionalVars =
     (let activeEnv = find isActive (live st);
          vars = (case activeEnv of None \<Rightarrow> Map.empty | Some env \<Rightarrow> variables env)
                   ++ additionalVars
      in rx_replace_g False text placeholder_rx (substitute vars) text)"

subsection \<open>Import\<close>

text \<open>
  What \<^verbatim>\<open>JSON.parse\<close> returns. \<^verbatim>\<open>JSON.parse\<close> itself is a parameter of
  \<open>importEnvironment\<close>, \<open>None\<close> where it throws; an object lists each of its keys once.
\<close>

datatype json =
    JNull
  | JBool bool
  | JNum rat
  | JStr string
  | JArr "json list"
  | JObj "(string \<times> json) list"

text \<open>
  \<^verbatim>\<open>data.key\<close> for \<open>key\<close> one of \<^verbatim>\<open>name\<close> and \<^verbatim>\<open>variables\<close>: a \<^verbatim>\<open>TypeError\<close> on \<^verbatim>\<open>null\<close>
  (\<open>None\<close>), the member of an object, \<^verbatim>\<open>undefined\<close> (\<open>Some None\<close>) otherwise.
\<close>

definition getProp :: "json \<Rightarrow> string \<Rightarrow> json option option" where
  "getProp data key =
     (case data of
        JNull \<Rightarrow> None
      | JObj members \<Rightarrow> Some (map_of members key)
      | _ \<Rightarrow> Some None)"

text \<open>The negation \<^verbatim>\<open>!v\<close> is true of \<^verbatim>\<open>undefined\<close>, \<^verbatim>\<open>null\<close>, \<^verbatim>\<open>false\<close>, \<^verbatim>\<open>0\<close> and \<^verbatim>\<open>""\<close>.\<close>

definition falsy :: "json option \<Rightarrow> bool" where
  "falsy v =
     (case v of
        None \<Rightarrow> True
      | Some JNull \<Rightarrow> True
      | Some (JBool b) \<Rightarrow> \<not> b
      | Some (JNum n) \<Rightarrow> n = 0
      | Some (JStr s) \<Rightarrow> s = []
      | Some _ \<Rightarrow> False)"

definition importEnvironment ::
  "(string \<Rightarrow> json option) \<Rightarrow> string \<Rightarrow> nat \<Rightarrow> string \<Rightarrow> (json, json) globalState \<Rightarrow>
   (json, json) Environment option \<times> (json, json) globalState" where
  "importEnvironment parse newId now jsonData st =
     (case parse jsonData of
        None \<Rightarrow> (None, st)
      | Some data \<Rightarrow>
          (case (getProp data ''name'', getProp data ''variables'') of
             (Some (Some nm), Some (Some vars)) \<Rightarrow>
               if falsy (Some nm) \<or> falsy (Some vars) then (None, st)
               else (case createEnvironment newId now nm vars st of
                       (env, st') \<Rightarrow> (Some env, st'))
           | _ \<Rightarrow> (None, st)))"

section \<open>Properties of the cursor lookup\<close>

definition closestStep ::
  "nat \<Rightarrow> (DiscoveredEndpoint \<times> nat) option \<Rightarrow> DiscoveredEndpoint \<Rightarrow>
   (DiscoveredEndpoint \<times> nat) option" where
  "closestStep c acc x =
     (if line x \<le> c then
        (let distance = c - line x in
         if (case acc of None \<Rightarrow> True | Some (_, closestDistance) \<Rightarrow> distance < closestDistance)
         then Some (x, distance) else acc)
      else acc)"

definition closestOk :: "nat \<Rightarrow> (DiscoveredEndpoint \<times> nat) option \<Rightarrow> bool" where
  "closestOk c acc = (case acc of None \<Rightarrow> True | Some (e, d) \<Rightarrow> line e \<le> c \<and> d = c - line e)"

lemma closestLoop_Cons:
  "closestLoop c acc (x # xs) = closestLoop c (closestStep c acc x) xs"
  by (simp add: closestStep_def)

lemma closestStep_cases:
  "closestStep c acc x = acc \<or> (closestStep c acc x = Some (x, c - line x) \<and> line x \<le> c)"
  by (simp add: closestStep_def Let_def)

lemma closestStep_ok: "closestOk c acc \<Longrightarrow> closestOk c (closestStep c acc x)"
  using closestStep_cases [of c acc x] by (auto simp: closestOk_def)

lemma closestStep_None: "closestStep c acc x = None \<Longrightarrow> acc = None \<and> \<not> line x \<le> c"
  by (cases acc) (auto simp: closestStep_def Let_def split: if_splits)

lemma closestStep_max:
  assumes "closestOk c acc" and "closestStep c acc x = Some (e, d)"
  shows "(line x \<le> c \<longrightarrow> line x \<le> line e) \<and> (\<forall>e' d'. acc = Some (e', d') \<longrightarrow> line e' \<le> line e)"
proof (cases acc)
  case None
  with assms show ?thesis by (auto simp: closestStep_def Let_def split: if_splits)
next
  case (Some p)
  obtain e0 d0 where p: "p = (e0, d0)" by (cases p)
  from assms(1) Some p have ok: "line e0 \<le> c" "d0 = c - line e0" by (auto simp: closestOk_def)
  show ?thesis
  proof (cases "line x \<le> c \<and> c - line x < d0")
    case True
    with assms(2) Some p have "e = x" by (auto simp: closestStep_def Let_def)
    with True ok Some p show ?thesis by auto
  next
    case False
    with assms(2) Some p have "e = e0" by (auto simp: closestStep_def Let_def split: if_splits)
    with False ok Some p show ?thesis by auto
  qed
qed

lemma closestLoop_ok: "closestOk c acc \<Longrightarrow> closestOk c (closestLoop c acc eps)"
proof (induction eps arbitrary: acc)
  case Nil
  then show ?case by simp
next
  case (Cons x xs)
  from Cons.IH [OF closestStep_ok [OF Cons.prems]] show ?case
    by (simp only: closestLoop_Cons)
qed

lemma closestLoop_mem:
  "closestLoop c acc eps = Some p \<Longrightarrow> fst p \<in> set eps \<or> acc = Some p"
proof (induction eps arbitrary: acc)
  case Nil
  then show ?case by simp
next
  case (Cons x xs)
  from Cons.prems have "closestLoop c (closestStep c acc x) xs = Some p"
    by (simp only: closestLoop_Cons)
  from Cons.IH [OF this] closestStep_cases [of c acc x] show ?case by auto
qed

lemma closestLoop_None:
  "closestLoop c acc eps = None \<Longrightarrow> acc = None \<and> (\<forall>e\<in>set eps. \<not> line e \<le> c)"
proof (induction eps arbitrary: acc)
  case Nil
  then show ?case by simp
next
  case (Cons x xs)
  from Cons.prems have "closestLoop c (closestStep c acc x) xs = None"
    by (simp only: closestLoop_Cons)
  from Cons.IH [OF this] closestStep_None [of c acc x] show ?case by auto
qed

lemma closestLoop_max:
  "closestOk c acc \<Longrightarrow> closestLoop c acc eps = Some (e, d) \<Longrightarrow>
     (\<forall>e'\<in>set eps. line e' \<le> c \<longrightarrow> line e' \<le> line e) \<and>
     (\<forall>e' d'. acc = Some (e', d') \<longrightarrow> line e' \<le> line e)"
proof (induction eps arbitrary: acc)
  case Nil
  then show ?case by simp
next
  case (Cons x xs)
  from Cons.prems have loop: "closestLoop c (closestStep c acc x) xs = Some (e, d)"
    by (simp only: closestLoop_Cons)
  note ih = Cons.IH [OF closestStep_ok [OF Cons.prems(1)] loop]
  show ?case
  proof (cases "closestStep c acc x")
    case None
    with closestStep_None [of c acc x] ih show ?thesis by auto
  next
    case (Some q)
    obtain e1 d1 where q: "q = (e1, d1)" by (cases q)
    from closestStep_max [OF Cons.prems(1)] Some q
    have "(line x \<le> c \<longrightarrow> line x \<le> line e1) \<and> (\<forall>e' d'. acc = Some (e', d') \<longrightarrow> line e' \<le> line e1)"
      by simp
    moreover from ih Some q have "line e1 \<le> line e" by simp
    ultimately show ?thesis using ih by (auto intro: order_trans)
  qed
qed

text \<open>
  C5. The lookup returns an endpoint of the list at or before the cursor line, at most
  10 lines before it, and no endpoint at or before the cursor has a larger line; it
  returns none exactly when no endpoint lies at or before the cursor within 10 lines,
  whatever lies after the cursor.
\<close>

theorem cursor_lookup:
  "(\<forall>ep. endpointAtLine eps c = Some ep \<longrightarrow>
      ep \<in> set eps \<and> line ep \<le> c \<and> c - line ep \<le> 10 \<and>
      (\<forall>e\<in>set eps. line e \<le> c \<longrightarrow> line e \<le> line ep)) \<and>
   (endpointAtLine eps c = None \<longleftrightarrow> \<not> (\<exists>e\<in>set eps. line e \<le> c \<and> c - line e \<le> 10))"
proof -
  show ?thesis
  proof (cases "closestLoop c None eps")
    case None
    with closestLoop_None [of c None eps] show ?thesis by (auto simp: endpointAtLine_def)
  next
    case (Some p)
    obtain e d where p: "p = (e, d)" by (cases p)
    have ok0: "closestOk c None" by (simp add: closestOk_def)
    from closestLoop_ok [OF ok0, of eps] Some p have e: "line e \<le> c" "d = c - line e"
      by (auto simp: closestOk_def)
    from closestLoop_mem [of c None eps p] Some p have mem: "e \<in> set eps" by simp
    from closestLoop_max [OF ok0, of eps e d] Some p
    have mx: "\<forall>e'\<in>set eps. line e' \<le> c \<longrightarrow> line e' \<le> line e" by simp
    show ?thesis
    proof (cases "d \<le> 10")
      case True
      with Some p e mem mx show ?thesis by (auto simp: endpointAtLine_def)
    next
      case False
      have "\<not> (\<exists>e'\<in>set eps. line e' \<le> c \<and> c - line e' \<le> 10)"
      proof
        assume "\<exists>e'\<in>set eps. line e' \<le> c \<and> c - line e' \<le> 10"
        then obtain e' where e': "e' \<in> set eps" "line e' \<le> c" "c - line e' \<le> 10" by auto
        with mx have "line e' \<le> line e" by auto
        with e' e False show False by simp
      qed
      with Some p False show ?thesis by (auto simp: endpointAtLine_def)
    qed
  qed
qed

definition ep_at :: "nat \<Rightarrow> DiscoveredEndpoint" where
  "ep_at n = \<lparr>method_ep = ''GET'', path = ''/users'', file_ep = ''/srv/app.js'', line = n,
     framework = ''express'', params = None\<rparr>"

theorem cursor_lookup_witness:
  "endpointAtLine [ep_at 5, ep_at 20] 8 = Some (ep_at 5) \<and>
   ep_at 5 \<in> set [ep_at 5, ep_at 20] \<and> line (ep_at 5) \<le> 8 \<and> 8 - line (ep_at 5) \<le> 10 \<and>
   endpointAtLine [ep_at 5, ep_at 20] 35 = None \<and>
   \<not> (\<exists>e\<in>set [ep_at 5, ep_at 20]. line e \<le> 35 \<and> 35 - line e \<le> 10)"
proof -
  have a: "endpointAtLine [ep_at 5, ep_at 20] 8 = Some (ep_at 5)"
    by (simp add: endpointAtLine_def ep_at_def)
  have b: "endpointAtLine [ep_at 5, ep_at 20] 35 = None"
    by (simp add: endpointAtLine_def ep_at_def)
  from a cursor_lookup [of "[ep_at 5, ep_at 20]" 8]
  have "ep_at 5 \<in> set [ep_at 5, ep_at 20] \<and> line (ep_at 5) \<le> 8 \<and> 8 - line (ep_at 5) \<le> 10"
    by blast
  moreover from b cursor_lookup [of "[ep_at 5, ep_at 20]" 35]
  have "\<not> (\<exists>e\<in>set [ep_at 5, ep_at 20]. line e \<le> 35 \<and> 35 - line e \<le> 10)"
    by blast
  ultimately show ?thesis using a b by blast
qed

section \<open>Properties of deduplication\<close>

lemma dedupFilter_keys:
  "endpointKey ` set (dedupFilter seen eps) = endpointKey ` set eps - seen"
  by (induction eps arbitrary: seen) auto

lemma dedupFilter_distinct: "distinct (map endpointKey (dedupFilter seen eps))"
proof (induction eps arbitrary: seen)
  case Nil
  then show ?case by simp
next
  case (Cons x xs)
  have "endpointKey x \<notin> endpointKey ` set (dedupFilter (insert (endpointKey x) seen) xs)"
    by (simp add: dedupFilter_keys)
  with Cons show ?case by simp
qed

lemma dedupFilter_append:
  "dedupFilter seen (xs @ ys) =
     dedupFilter seen xs @ dedupFilter (seen \<union> endpointKey ` set xs) ys"
proof (induction xs arbitrary: seen)
  case Nil
  then show ?case by simp
next
  case (Cons x xs)
  show ?case
  proof (cases "endpointKey x \<in> seen")
    case True
    then have "seen \<union> endpointKey ` set (x # xs) = seen \<union> endpointKey ` set xs" by auto
    with True Cons show ?thesis by simp
  next
    case False
    have "seen \<union> endpointKey ` set (x # xs) = insert (endpointKey x) seen \<union> endpointKey ` set xs"
      by auto
    with False Cons show ?thesis by simp
  qed
qed

lemma dedupFilter_seen:
  "endpointKey ` set eps \<subseteq> seen \<Longrightarrow> dedupFilter seen eps = []"
  by (induction eps arbitrary: seen) auto

lemma dedupFilter_id:
  "distinct (map endpointKey eps) \<Longrightarrow> endpointKey ` set eps \<inter> seen = {} \<Longrightarrow>
     dedupFilter seen eps = eps"
  by (induction eps arbitrary: seen) auto

lemma dedupFilter_again: "dedupFilter {} (dedupFilter {} eps) = dedupFilter {} eps"
  by (rule dedupFilter_id) (simp_all add: dedupFilter_distinct)

definition ep_of :: "string \<Rightarrow> string \<Rightarrow> string \<Rightarrow> DiscoveredEndpoint" where
  "ep_of m p f = \<lparr>method_ep = m, path = p, file_ep = f, line = 0, framework = ''express'',
     params = None\<rparr>"

section \<open>Properties of the environment store\<close>

definition atMostOneActive :: "('n, 'v) Environment list \<Rightarrow> bool" where
  "atMostOneActive envs = (length (filter isActive envs) \<le> 1)"

definition storeOk :: "('n, 'v) globalState \<Rightarrow> bool" where
  "storeOk st = (atMostOneActive (live st) \<and> atMostOneActive (persisted st))"

lemma storeOk_update: "storeOk (update envs) = atMostOneActive envs"
  by (simp add: storeOk_def update_def)

lemma findIndex_Some:
  "findIndex P xs = Some i \<Longrightarrow> i < length xs \<and> P (xs ! i)"
proof (induction xs arbitrary: i)
  case Nil
  then show ?case by simp
next
  case (Cons x xs)
  then show ?case by (cases "P x") auto
qed

lemma findIndex_None: "findIndex P xs = None \<Longrightarrow> \<forall>x\<in>set xs. \<not> P x"
  by (induction xs) (auto split: if_splits)

lemma filter_update_same:
  "i < length xs \<Longrightarrow> P y = P (xs ! i) \<Longrightarrow>
     length (filter P (xs[i := y])) = length (filter P xs)"
proof (induction xs arbitrary: i)
  case Nil
  then show ?case by simp
next
  case (Cons x xs)
  then show ?case by (cases i) auto
qed

lemma filter_update_le:
  "i < length xs \<Longrightarrow> (P y \<longrightarrow> P (xs ! i)) \<Longrightarrow>
     length (filter P (xs[i := y])) \<le> length (filter P xs)"
proof (induction xs arbitrary: i)
  case Nil
  then show ?case by simp
next
  case (Cons x xs)
  then show ?case by (cases i) auto
qed

lemma setActiveLoop_map:
  "fst (setActiveLoop ident found envs) = map (\<lambda>env. env\<lparr>isActive := (id_env env = ident)\<rparr>) envs"
  by (induction envs arbitrary: found) (simp_all add: case_prod_unfold)

lemma setActiveLoop_found:
  "snd (setActiveLoop ident found envs) = (found \<or> (\<exists>env\<in>set envs. id_env env = ident))"
  by (induction envs arbitrary: found) (simp_all add: case_prod_unfold)

lemma filter_active_setActive:
  "filter isActive (map (\<lambda>env. env\<lparr>isActive := (id_env env = ident)\<rparr>) envs) =
     map (\<lambda>env. env\<lparr>isActive := True\<rparr>) (filter (\<lambda>env. id_env env = ident) envs)"
  by (induction envs) auto

lemma atMostOneActive_create:
  "atMostOneActive envs \<Longrightarrow>
     atMostOneActive (envs @ [\<lparr>id_env = i, name = n, variables = v, isActive = (length envs = 0),
        createdAt = t, updatedAt = t\<rparr>])"
  by (cases envs) (auto simp: atMostOneActive_def)

lemma atMostOneActive_filter:
  "atMostOneActive envs \<Longrightarrow> atMostOneActive (filter P envs)"
proof -
  have "length (filter isActive (filter P envs)) \<le> length (filter isActive envs)"
    by (induction envs) auto
  then show "atMostOneActive envs \<Longrightarrow> atMostOneActive (filter P envs)"
    by (simp add: atMostOneActive_def)
qed

lemma atMostOneActive_promote:
  "\<not> list_ex isActive (e # es) \<Longrightarrow> atMostOneActive (e\<lparr>isActive := True\<rparr> # es)"
proof -
  assume "\<not> list_ex isActive (e # es)"
  then have "filter isActive es = []" by (auto simp: list_ex_iff filter_empty_conv)
  then show ?thesis by (simp add: atMostOneActive_def)
qed


lemma createEnvironment_ok:
  assumes "storeOk st"
  shows "storeOk (snd (createEnvironment newId now nm vars st))"
proof -
  from assms have "atMostOneActive (live st)" by (simp add: storeOk_def)
  from atMostOneActive_create [OF this] show ?thesis
    by (simp add: createEnvironment_def Let_def storeOk_update getEnvironments_def)
qed

lemma deleteEnvironment_ok:
  assumes "storeOk st"
  shows "storeOk (snd (deleteEnvironment ident st))"
proof -
  let ?f = "filter (\<lambda>e. id_env e \<noteq> ident) (live st)"
  from assms have f: "atMostOneActive ?f"
    by (simp add: storeOk_def atMostOneActive_filter)
  show ?thesis
  proof (cases ?f)
    case Nil
    with assms show ?thesis
      by (simp add: deleteEnvironment_def Let_def getEnvironments_def storeOk_update
            atMostOneActive_def)
  next
    case (Cons e es)
    with f assms atMostOneActive_promote [of e es] show ?thesis
      by (auto simp: deleteEnvironment_def Let_def getEnvironments_def storeOk_update)
  qed
qed

lemma deleteEnvironment_promotes:
  assumes "fst (deleteEnvironment ident st)"
    and "live (snd (deleteEnvironment ident st)) \<noteq> []"
  shows "list_ex isActive (live (snd (deleteEnvironment ident st)))"
proof (cases "filter (\<lambda>e. id_env e \<noteq> ident) (live st)")
  case Nil
  with assms show ?thesis
    by (auto simp: deleteEnvironment_def Let_def getEnvironments_def update_def split: if_splits)
next
  case (Cons e es)
  with assms show ?thesis
    by (auto simp: deleteEnvironment_def Let_def getEnvironments_def update_def split: if_splits)
qed

lemma setVariable_ok:
  assumes "storeOk st"
  shows "storeOk (snd (setVariable envId key val now st))"
proof (cases "findIndex (\<lambda>e. id_env e = envId) (live st)")
  case None
  with assms show ?thesis by (simp add: setVariable_def Let_def getEnvironments_def)
next
  case (Some i)
  from findIndex_Some [OF Some] have i: "i < length (live st)" by simp
  from assms have "atMostOneActive (live st)" by (simp add: storeOk_def)
  with i Some show ?thesis
    by (simp add: setVariable_def Let_def getEnvironments_def storeOk_update atMostOneActive_def
          filter_update_same)
qed

lemma deleteVariable_ok:
  assumes "storeOk st"
  shows "storeOk (snd (deleteVariable envId key now st))"
proof (cases "findIndex (\<lambda>e. id_env e = envId) (live st)")
  case None
  with assms show ?thesis by (simp add: deleteVariable_def Let_def getEnvironments_def)
next
  case (Some i)
  from findIndex_Some [OF Some] have i: "i < length (live st)" by simp
  from assms have "atMostOneActive (live st)" by (simp add: storeOk_def)
  with i Some assms show ?thesis
    by (simp add: deleteVariable_def Let_def getEnvironments_def storeOk_update
          atMostOneActive_def filter_update_same)
qed

lemma createOrUpdateFromFile_ok:
  assumes "storeOk st"
  shows "storeOk (createOrUpdateFromFile nm vars sourceFile now st)"
proof (cases "findIndex (\<lambda>e. name e = ''[File] '' @ nm) (live st)")
  case None
  from assms have "atMostOneActive (live st)" by (simp add: storeOk_def)
  with None show ?thesis
    by (simp add: createOrUpdateFromFile_def Let_def getEnvironments_def storeOk_update
          atMostOneActive_def)
next
  case (Some i)
  from findIndex_Some [OF Some] have i: "i < length (live st)" by simp
  from assms have "atMostOneActive (live st)" by (simp add: storeOk_def)
  with i Some show ?thesis
    by (simp add: createOrUpdateFromFile_def Let_def getEnvironments_def storeOk_update
          atMostOneActive_def filter_update_same)
qed

lemma setActiveEnvironment_live:
  "live (snd (setActiveEnvironment ident st)) =
     map (\<lambda>env. env\<lparr>isActive := (id_env env = ident)\<rparr>) (live st)"
  using setActiveLoop_map [of ident False "live st"]
  by (simp add: setActiveEnvironment_def getEnvironments_def update_def case_prod_unfold)

lemma setActiveEnvironment_persisted:
  "persisted (snd (setActiveEnvironment ident st)) =
     (if fst (setActiveEnvironment ident st)
      then map (\<lambda>env. env\<lparr>isActive := (id_env env = ident)\<rparr>) (live st)
      else persisted st)"
  using setActiveLoop_map [of ident False "live st"]
  by (simp add: setActiveEnvironment_def getEnvironments_def update_def case_prod_unfold)

lemma setActiveEnvironment_found:
  "fst (setActiveEnvironment ident st) = (\<exists>env\<in>set (live st). id_env env = ident)"
  using setActiveLoop_found [of ident False "live st"]
  by (simp add: setActiveEnvironment_def getEnvironments_def case_prod_unfold)

lemma setActiveEnvironment_ok:
  assumes "storeOk st" and "length (filter (\<lambda>e. id_env e = ident) (live st)) \<le> 1"
  shows "storeOk (snd (setActiveEnvironment ident st))"
  using assms
  by (simp add: storeOk_def setActiveEnvironment_live setActiveEnvironment_persisted
        atMostOneActive_def filter_active_setActive)

lemma updateEnvironment_ok:
  assumes "storeOk st" and "u_isActive updates \<noteq> Some True"
  shows "storeOk (snd (updateEnvironment ident updates now st))"
proof (cases "findIndex (\<lambda>e. id_env e = ident) (live st)")
  case None
  with assms show ?thesis by (simp add: updateEnvironment_def Let_def getEnvironments_def)
next
  case (Some i)
  from findIndex_Some [OF Some] have i: "i < length (live st)" by simp
  from assms(2) have "isActive (spreadUpdates (live st ! i) updates now) \<longrightarrow> isActive (live st ! i)"
    by (cases "u_isActive updates") (auto simp: spreadUpdates_def)
  moreover from assms(1) have "length (filter isActive (live st)) \<le> 1"
    by (simp add: storeOk_def atMostOneActive_def)
  ultimately have "atMostOneActive ((live st)[i := spreadUpdates (live st ! i) updates now])"
    using filter_update_le [OF i, of isActive "spreadUpdates (live st ! i) updates now"]
    by (simp add: atMostOneActive_def)
  with Some show ?thesis
    by (simp add: updateEnvironment_def Let_def getEnvironments_def storeOk_update)
qed

text \<open>Two stored environments, the first of them active, for the examples below.\<close>

definition env_a :: "(string, string \<rightharpoonup> string) Environment" where
  "env_a = \<lparr>id_env = ''env-a'', name = ''Development'', variables = [''BASE_URL'' \<mapsto> ''http://x''],
     isActive = True, createdAt = 1, updatedAt = 1\<rparr>"

definition env_b :: "(string, string \<rightharpoonup> string) Environment" where
  "env_b = \<lparr>id_env = ''env-b'', name = ''Staging'', variables = Map.empty,
     isActive = False, createdAt = 2, updatedAt = 2\<rparr>"

definition store_ab :: "(string, string \<rightharpoonup> string) globalState" where
  "store_ab = update [env_a, env_b]"

definition activate :: "(string, string \<rightharpoonup> string) EnvironmentUpdates" where
  "activate = \<lparr>u_id = None, u_name = None, u_variables = None, u_isActive = Some True,
     u_createdAt = None, u_updatedAt = None\<rparr>"

definition rename :: "(string, string \<rightharpoonup> string) EnvironmentUpdates" where
  "rename = \<lparr>u_id = None, u_name = Some ''Production'', u_variables = None, u_isActive = None,
     u_createdAt = None, u_updatedAt = None\<rparr>"

text \<open>
  C6, as the claim states it, fails for \<^verbatim>\<open>updateEnvironment\<close>: an update that carries
  \<^verbatim>\<open>isActive: true\<close> for the second environment leaves both environments active.
\<close>

theorem update_two_active:
  "atMostOneActive (live store_ab) \<and>
   \<not> atMostOneActive (live (snd (updateEnvironment ''env-b'' activate 3 store_ab)))"
  by (simp add: atMostOneActive_def store_ab_def update_def env_a_def env_b_def activate_def
        updateEnvironment_def getEnvironments_def spreadUpdates_def Let_def)

text \<open>
  Nothing in the source keeps two stored environments from having one identifier. When
  two have it, \<^verbatim>\<open>setActiveEnvironment\<close> flags both.
\<close>

lemma setActive_shared_id:
  "atMostOneActive (live (update [env_b, env_b\<lparr>name := ''Copy''\<rparr>])) \<and>
   \<not> atMostOneActive
       (live (snd (setActiveEnvironment ''env-b'' (update [env_b, env_b\<lparr>name := ''Copy''\<rparr>]))))"
  by (simp add: atMostOneActive_def update_def env_b_def setActiveEnvironment_def
        getEnvironments_def)

text \<open>
  C6, amended. From a store with at most one active environment, creating and deleting
  an environment, setting and deleting a variable and the synchronisation with a file
  leave at most one environment active; so does \<^verbatim>\<open>setActiveEnvironment\<close> when at most one
  stored environment has the identifier, and when it finds the identifier it flags
  the environments that have it and clears the flag of all others in the one update;
  so does \<^verbatim>\<open>updateEnvironment\<close> when its updates do not set \<^verbatim>\<open>isActive\<close> to true; and
  after a deletion that leaves environments behind one of them is active.
\<close>

theorem single_active_preserved:
  fixes st :: "(string, string \<rightharpoonup> string) globalState"
  assumes "storeOk st"
  shows "storeOk (snd (createEnvironment newId now nm vars st)) \<and>
    storeOk (snd (deleteEnvironment ident st)) \<and>
    storeOk (snd (setVariable ident key val now st)) \<and>
    storeOk (snd (deleteVariable ident key now st)) \<and>
    storeOk (createOrUpdateFromFile nm vars sourceFile now st) \<and>
    (length (filter (\<lambda>e. id_env e = ident) (live st)) \<le> 1 \<longrightarrow>
       storeOk (snd (setActiveEnvironment ident st))) \<and>
    (fst (setActiveEnvironment ident st) \<longrightarrow>
       live (snd (setActiveEnvironment ident st)) =
         map (\<lambda>env. env\<lparr>isActive := (id_env env = ident)\<rparr>) (live st) \<and>
       persisted (snd (setActiveEnvironment ident st)) =
         live (snd (setActiveEnvironment ident st))) \<and>
    (u_isActive updates \<noteq> Some True \<longrightarrow>
       storeOk (snd (updateEnvironment ident updates now st))) \<and>
    (fst (deleteEnvironment ident st) \<and> live (snd (deleteEnvironment ident st)) \<noteq> [] \<longrightarrow>
       list_ex isActive (live (snd (deleteEnvironment ident st))))"
  using assms
  by (simp add: createEnvironment_ok deleteEnvironment_ok setVariable_ok deleteVariable_ok
        createOrUpdateFromFile_ok setActiveEnvironment_ok updateEnvironment_ok
        deleteEnvironment_promotes setActiveEnvironment_live setActiveEnvironment_persisted)

theorem single_active_preserved_witness:
  "storeOk store_ab \<and>
   storeOk (snd (createEnvironment ''env-c'' 3 ''Test'' Map.empty store_ab)) \<and>
   storeOk (snd (deleteEnvironment ''env-a'' store_ab)) \<and>
   storeOk (snd (setVariable ''env-a'' ''TOKEN'' ''t'' 3 store_ab)) \<and>
   storeOk (snd (deleteVariable ''env-a'' ''TOKEN'' 3 store_ab)) \<and>
   storeOk (createOrUpdateFromFile ''Test'' Map.empty ''.env.test'' 3 store_ab) \<and>
   length (filter (\<lambda>e. id_env e = ''env-a'') (live store_ab)) \<le> 1 \<and>
   storeOk (snd (setActiveEnvironment ''env-a'' store_ab)) \<and>
   fst (setActiveEnvironment ''env-a'' store_ab) \<and>
   persisted (snd (setActiveEnvironment ''env-a'' store_ab)) =
     live (snd (setActiveEnvironment ''env-a'' store_ab)) \<and>
   u_isActive rename \<noteq> Some True \<and>
   storeOk (snd (updateEnvironment ''env-a'' rename 3 store_ab)) \<and>
   fst (deleteEnvironment ''env-a'' store_ab) \<and>
   live (snd (deleteEnvironment ''env-a'' store_ab)) \<noteq> [] \<and>
   list_ex isActive (live (snd (deleteEnvironment ''env-a'' store_ab)))"
proof -
  have ok: "storeOk store_ab"
    by (simp add: storeOk_def atMostOneActive_def store_ab_def update_def env_a_def env_b_def)
  have ids: "length (filter (\<lambda>e. id_env e = ''env-a'') (live store_ab)) \<le> 1"
    by (simp add: store_ab_def update_def env_a_def env_b_def)
  have found: "fst (setActiveEnvironment ''env-a'' store_ab)"
    by (simp add: setActiveEnvironment_found store_ab_def update_def env_a_def)
  have upd: "u_isActive rename \<noteq> Some True"
    by (simp add: rename_def)
  have del: "fst (deleteEnvironment ''env-a'' store_ab)"
    "live (snd (deleteEnvironment ''env-a'' store_ab)) \<noteq> []"
    by (simp_all add: deleteEnvironment_def Let_def getEnvironments_def store_ab_def update_def
          env_a_def env_b_def)
  from single_active_preserved [OF ok, of "''env-c''" 3 "''Test''" Map.empty "''env-a''"
      "''TOKEN''" "''t''" "''.env.test''" rename] ok ids found upd del
  show ?thesis by blast
qed

text \<open>
  C10. A call of \<^verbatim>\<open>setActiveEnvironment\<close> with an identifier that no stored environment
  has returns false and does not call \<^verbatim>\<open>update\<close>, but its loop has by then cleared
  the flag of every environment of the array it got from the store: the environment that
  was active is active no more.
\<close>

theorem setActive_unknown_id:
  "getActiveEnvironment store_ab = Some env_a \<and>
   fst (setActiveEnvironment ''env-z'' store_ab) = False \<and>
   persisted (snd (setActiveEnvironment ''env-z'' store_ab)) = persisted store_ab \<and>
   live (snd (setActiveEnvironment ''env-z'' store_ab)) = [env_a\<lparr>isActive := False\<rparr>, env_b] \<and>
   getEnvironments (snd (setActiveEnvironment ''env-z'' store_ab)) \<noteq> getEnvironments store_ab \<and>
   getActiveEnvironment (snd (setActiveEnvironment ''env-z'' store_ab)) = None"
  by (simp add: getActiveEnvironment_def getEnvironments_def setActiveEnvironment_def
        store_ab_def update_def env_a_def env_b_def)

section \<open>Properties of the import\<close>

text \<open>The JSON text \<^verbatim>\<open>{"name":"","variables":{}}\<close> and a text that is not JSON.\<close>

definition empty_name_text :: string where
  "empty_name_text = ''{'' @ [dq] @ ''name'' @ [dq] @ '':'' @ [dq, dq] @ '','' @ [dq]
     @ ''variables'' @ [dq] @ '':{}}''"

definition empty_name_value :: json where
  "empty_name_value = JObj [(''name'', JStr ''''), (''variables'', JObj [])]"

text \<open>The JSON text \<^verbatim>\<open>{"name":"Dev","variables":{"K":"v"}}\<close>.\<close>

definition dev_text :: string where
  "dev_text = ''{'' @ [dq] @ ''name'' @ [dq] @ '':'' @ [dq] @ ''Dev'' @ [dq] @ '','' @ [dq]
     @ ''variables'' @ [dq] @ '':{'' @ [dq] @ ''K'' @ [dq] @ '':'' @ [dq] @ ''v'' @ [dq] @ ''}}''"

definition dev_value :: json where
  "dev_value = JObj [(''name'', JStr ''Dev''), (''variables'', JObj [(''K'', JStr ''v'')])]"

text \<open>What \<^verbatim>\<open>JSON.parse\<close> gives on these texts and on \<^verbatim>\<open>{oops\<close>.\<close>

definition parse_examples :: "string \<Rightarrow> json option" where
  "parse_examples s =
     (if s = empty_name_text then Some empty_name_value
      else if s = dev_text then Some dev_value
      else None)"

text \<open>
  C9, as the claim states it, fails: the text \<^verbatim>\<open>{"name":"","variables":{}}\<close> parses to a
  value that has both fields, and the import returns \<^verbatim>\<open>null\<close> and stores nothing.
\<close>

theorem import_empty_name:
  "parse_examples empty_name_text = Some empty_name_value \<and>
   getProp empty_name_value ''name'' = Some (Some (JStr '''')) \<and>
   getProp empty_name_value ''variables'' = Some (Some (JObj [])) \<and>
   importEnvironment parse_examples ''env-1'' 7 empty_name_text (update []) = (None, update [])"
  by (simp add: parse_examples_def empty_name_value_def getProp_def importEnvironment_def
        falsy_def)

text \<open>
  C9, amended. The import returns \<^verbatim>\<open>null\<close> and leaves the store as it was when the text
  is not JSON, when it parses to \<^verbatim>\<open>null\<close>, and when the \<^verbatim>\<open>name\<close> or the \<^verbatim>\<open>variables\<close> of
  the parsed value is missing or falsy (\<^verbatim>\<open>null\<close>, \<^verbatim>\<open>false\<close>, \<^verbatim>\<open>0\<close> or the empty string).
  When both are there and truthy, it returns a new environment with that name and those
  variables, appended to the stored list and active exactly if the list was empty.
\<close>

theorem import_environment:
  "(parse jsonData = None \<longrightarrow>
      importEnvironment parse newId now jsonData st = (None, st)) \<and>
   (\<forall>data. parse jsonData = Some data \<and>
      (getProp data ''name'' = None \<or>
       (\<exists>nm. getProp data ''name'' = Some nm \<and> falsy nm) \<or>
       (\<exists>vars. getProp data ''variables'' = Some vars \<and> falsy vars)) \<longrightarrow>
      importEnvironment parse newId now jsonData st = (None, st)) \<and>
   (\<forall>data nm vars. parse jsonData = Some data \<and>
      getProp data ''name'' = Some (Some nm) \<and> \<not> falsy (Some nm) \<and>
      getProp data ''variables'' = Some (Some vars) \<and> \<not> falsy (Some vars) \<longrightarrow>
      importEnvironment parse newId now jsonData st =
        (Some \<lparr>id_env = newId, name = nm, variables = vars, isActive = (live st = []),
                createdAt = now, updatedAt = now\<rparr>,
         update (live st @ [\<lparr>id_env = newId, name = nm, variables = vars,
                              isActive = (live st = []), createdAt = now, updatedAt = now\<rparr>])))"
proof (intro conjI allI impI)
  assume "parse jsonData = None"
  then show "importEnvironment parse newId now jsonData st = (None, st)"
    by (simp add: importEnvironment_def)
next
  fix data
  assume a: "parse jsonData = Some data \<and>
      (getProp data ''name'' = None \<or>
       (\<exists>nm. getProp data ''name'' = Some nm \<and> falsy nm) \<or>
       (\<exists>vars. getProp data ''variables'' = Some vars \<and> falsy vars))"
  then show "importEnvironment parse newId now jsonData st = (None, st)"
    by (auto simp: importEnvironment_def split: option.splits)
next
  fix data nm vars
  assume "parse jsonData = Some data \<and>
      getProp data ''name'' = Some (Some nm) \<and> \<not> falsy (Some nm) \<and>
      getProp data ''variables'' = Some (Some vars) \<and> \<not> falsy (Some vars)"
  then show "importEnvironment parse newId now jsonData st =
        (Some \<lparr>id_env = newId, name = nm, variables = vars, isActive = (live st = []),
                createdAt = now, updatedAt = now\<rparr>,
         update (live st @ [\<lparr>id_env = newId, name = nm, variables = vars,
                              isActive = (live st = []), createdAt = now, updatedAt = now\<rparr>]))"
    by (simp add: importEnvironment_def createEnvironment_def getEnvironments_def Let_def)
qed

theorem import_environment_witness:
  "parse_examples ''{oops'' = None \<and>
   importEnvironment parse_examples ''env-1'' 7 ''{oops'' (update []) = (None, update []) \<and>
   parse_examples empty_name_text = Some empty_name_value \<and>
   getProp empty_name_value ''name'' = Some (Some (JStr '''')) \<and> falsy (Some (JStr '''')) \<and>
   importEnvironment parse_examples ''env-1'' 7 empty_name_text (update []) = (None, update []) \<and>
   parse_examples dev_text = Some dev_value \<and>
   getProp dev_value ''name'' = Some (Some (JStr ''Dev'')) \<and> \<not> falsy (Some (JStr ''Dev'')) \<and>
   getProp dev_value ''variables'' = Some (Some (JObj [(''K'', JStr ''v'')])) \<and>
   \<not> falsy (Some (JObj [(''K'', JStr ''v'')])) \<and>
   importEnvironment parse_examples ''env-1'' 7 dev_text (update []) =
     (Some \<lparr>id_env = ''env-1'', name = JStr ''Dev'', variables = JObj [(''K'', JStr ''v'')],
             isActive = True, createdAt = 7, updatedAt = 7\<rparr>,
      update [\<lparr>id_env = ''env-1'', name = JStr ''Dev'', variables = JObj [(''K'', JStr ''v'')],
                isActive = True, createdAt = 7, updatedAt = 7\<rparr>])"
proof -
  have p1: "parse_examples ''{oops'' = None"
    by (simp add: parse_examples_def empty_name_text_def dev_text_def dq_def)
  have p2: "parse_examples empty_name_text = Some empty_name_value"
    by (simp add: parse_examples_def)
  have g2: "getProp empty_name_value ''name'' = Some (Some (JStr ''''))" "falsy (Some (JStr ''''))"
    by (simp_all add: getProp_def empty_name_value_def falsy_def)
  have p3: "parse_examples dev_text = Some dev_value"
    by (simp add: parse_examples_def empty_name_text_def dev_text_def dq_def)
  have g3: "getProp dev_value ''name'' = Some (Some (JStr ''Dev''))" "\<not> falsy (Some (JStr ''Dev''))"
    "getProp dev_value ''variables'' = Some (Some (JObj [(''K'', JStr ''v'')]))"
    "\<not> falsy (Some (JObj [(''K'', JStr ''v'')]))"
    by (simp_all add: getProp_def dev_value_def falsy_def)
  have l: "live (update ([] :: (json, json) Environment list)) = []"
    by (simp add: update_def)
  from import_environment [of parse_examples "''{oops''" "''env-1''" 7 "update []"] p1
  have r1: "importEnvironment parse_examples ''env-1'' 7 ''{oops'' (update []) = (None, update [])"
    by blast
  from import_environment [of parse_examples empty_name_text "''env-1''" 7 "update []"] p2 g2
  have r2: "importEnvironment parse_examples ''env-1'' 7 empty_name_text (update []) = (None, update [])"
    by blast
  from import_environment [of parse_examples dev_text "''env-1''" 7 "update []"] p3 g3
  have r3: "importEnvironment parse_examples ''env-1'' 7 dev_text (update []) =
     (Some \<lparr>id_env = ''env-1'', name = JStr ''Dev'', variables = JObj [(''K'', JStr ''v'')],
             isActive = (live (update ([] :: (json, json) Environment list)) = []),
             createdAt = 7, updatedAt = 7\<rparr>,
      update (live (update []) @ [\<lparr>id_env = ''env-1'', name = JStr ''Dev'',
                variables = JObj [(''K'', JStr ''v'')],
                isActive = (live (update ([] :: (json, json) Environment list)) = []),
                createdAt = 7, updatedAt = 7\<rparr>]))"
    by blast
  from p1 p2 g2 p3 g3 r1 r2 r3 show ?thesis by (simp add: l)
qed

section \<open>The scanner on one-line fixtures\<close>

text \<open>
  One canonical call per line, in a file of the language of its framework. Where the
  detection needs it, the name of the framework follows the call on the line.
\<close>

definition endpoint :: "string \<Rightarrow> string \<Rightarrow> string \<Rightarrow> string \<Rightarrow> string list option \<Rightarrow> DiscoveredEndpoint" where
  "endpoint m p f fw ps =
     \<lparr>method_ep = m, path = p, file_ep = f, line = 0, framework = fw, params = ps\<rparr>"

text \<open>\<^verbatim>\<open>@app.get('/users')\<close>, the same with a comment naming Flask, and \<^verbatim>\<open>@app.route('/users')\<close>.\<close>

definition flask_inline :: string where
  "flask_inline = ''@app.get('' @ [sq] @ ''/users'' @ [sq] @ '')''"

definition flask_inline_named :: string where
  "flask_inline_named = flask_inline @ ''  # flask''"

definition flask_route :: string where
  "flask_route = ''@app.route('' @ [sq] @ ''/users'' @ [sq] @ '')''"

text \<open>\<^verbatim>\<open>@app.route('/users', methods=['POST'])\<close>\<close>

definition flask_route_methods :: string where
  "flask_route_methods = ''@app.route('' @ [sq] @ ''/users'' @ [sq] @ '', methods=['' @ [sq]
     @ ''POST'' @ [sq] @ ''])''"

lemma flask_inline_match:
  "rx_match True flask_2 flask_inline =
     Some \<lparr>m_index = 0, m_arr = [Some (''@app.get('' @ [sq] @ ''/users'' @ [sq]), Some ''get'',
       Some ''/users'']\<rparr>"
  by code_simp

text \<open>
  C1. For the Flask call with an inline verb, \<^verbatim>\<open>@app.get('/users')\<close>, the pattern captures
  the verb in group 1 and the path in group 2, and \<^verbatim>\<open>extractEndpointFromMatch\<close> reads
  group 2 as the list of methods and group 1 as the path: the endpoint has the method
  \<^verbatim>\<open>/USERS\<close> and the path \<^verbatim>\<open>/get\<close>. On the line alone Flask is not detected and the one
  endpoint found is FastAPI's; with Flask named on the line the scan finds two endpoints.
  \<^verbatim>\<open>@app.route('/users')\<close> gets the method \<^verbatim>\<open>/USERS\<close>; only the call with a list of
  methods is read as meant.
\<close>

theorem flask_inline_verb:
  "map_option (\<lambda>m. extractEndpointFromMatch m ''flask'' ''/srv/app.py'')
       (rx_match True flask_2 flask_inline) =
     Some (Some (endpoint ''/USERS'' ''/get'' ''/srv/app.py'' ''flask'' None)) \<and>
   parseFileForEndpoints flask_inline ''/srv/app.py'' =
     Some [endpoint ''GET'' ''/users'' ''/srv/app.py'' ''fastapi'' None] \<and>
   parseFileForEndpoints flask_inline_named ''/srv/app.py'' =
     Some [endpoint ''/USERS'' ''/get'' ''/srv/app.py'' ''flask'' None,
           endpoint ''GET'' ''/users'' ''/srv/app.py'' ''fastapi'' None] \<and>
   parseFileForEndpoints flask_route ''/srv/app.py'' =
     Some [endpoint ''/USERS'' ''/users'' ''/srv/app.py'' ''flask'' None] \<and>
   parseFileForEndpoints flask_route_methods ''/srv/app.py'' =
     Some [endpoint ''POST'' ''/users'' ''/srv/app.py'' ''flask'' None]"
  by code_simp

text \<open>The canonical calls of the other pattern families that the scanner reads as meant.\<close>

lemma canonical_express:
  "parseFileForEndpoints (''app.get('' @ [sq] @ ''/users/:id'' @ [sq] @ '', h) // express'')
       ''/srv/app.js'' =
     Some [endpoint ''GET'' ''/users/:id'' ''/srv/app.js'' ''express'' (Some [''id''])]"
  by code_simp

lemma canonical_fastify:
  "parseFileForEndpoints (''fastify.post('' @ [sq] @ ''/users'' @ [sq] @ '', h)'') ''/srv/app.ts'' =
     Some [endpoint ''POST'' ''/users'' ''/srv/app.ts'' ''fastify'' None]"
  by code_simp

lemma canonical_nestjs:
  "parseFileForEndpoints (''@Get('' @ [sq] @ ''users'' @ [sq] @ '')'') ''/srv/users.controller.ts'' =
     Some [endpoint ''GET'' ''/users'' ''/srv/users.controller.ts'' ''nestjs'' None]"
  by code_simp

lemma canonical_fastapi:
  "parseFileForEndpoints (''@router.put('' @ [dq] @ ''/items/{item_id}'' @ [dq] @ '')  # fastapi'')
       ''/srv/main.py'' =
     Some [endpoint ''PUT'' ''/items/{item_id}'' ''/srv/main.py'' ''fastapi'' (Some [''item_id''])]"
  by code_simp

lemma canonical_django:
  "parseFileForEndpoints (''path('' @ [sq] @ ''users/'' @ [sq] @ '', views.users),'') ''/srv/urls.py'' =
     Some [endpoint ''GET'' ''/users/'' ''/srv/urls.py'' ''django'' None]"
  by code_simp

lemma canonical_go:
  "parseFileForEndpoints (''r.DELETE('' @ [dq] @ ''/users/:id'' @ [dq] @ '', h)'') ''/srv/main.go'' =
     Some [endpoint ''DELETE'' ''/users/:id'' ''/srv/main.go'' ''go'' (Some [''id''])]"
  by code_simp

lemma canonical_spring:
  "parseFileForEndpoints (''@PostMapping('' @ [dq] @ ''/users'' @ [dq] @ '')'') ''/srv/Users.java'' =
     Some [endpoint ''POST'' ''/users'' ''/srv/Users.java'' ''spring'' None]"
  by code_simp

lemma canonical_rust:
  "parseFileForEndpoints (''#[get('' @ [dq] @ ''/users/<id>'' @ [dq] @ '')]'') ''/srv/main.rs'' =
     Some [endpoint ''GET'' ''/users/<id>'' ''/srv/main.rs'' ''rust'' (Some [''id''])]"
  by code_simp

lemma canonical_laravel:
  "parseFileForEndpoints (''Route::patch('' @ [sq] @ ''/users/{id}'' @ [sq] @ '', f);'')
       ''/srv/web.php'' =
     Some [endpoint ''PATCH'' ''/users/{id}'' ''/srv/web.php'' ''laravel'' (Some [''id''])]"
  by code_simp

section \<open>Reasoning about the matcher\<close>

text \<open>
  A pattern that reads one character satisfying \<open>P\<close>, as the character classes and the
  literals do.
\<close>

definition isSingle :: "bool \<Rightarrow> string \<Rightarrow> rx \<Rightarrow> (char \<Rightarrow> bool) \<Rightarrow> bool" where
  "isSingle ic s a P =
     (\<forall>r cs. rx_run ic s a (r, cs) =
        (case r of [] \<Rightarrow> [] | d # r' \<Rightarrow> if P d then [(r', cs)] else []))"

lemma isSingle_NCls: "isSingle False s (NCls xs) (\<lambda>d. d \<notin> set xs)"
  by (auto simp: isSingle_def canon_def split: list.splits)

lemma isSingle_Cls: "isSingle False s (Cls xs) (\<lambda>d. d \<in> set xs)"
  by (auto simp: isSingle_def canon_def split: list.splits)

lemma isSingle_Lit: "isSingle False s (Lit c) (\<lambda>d. d = c)"
  by (auto simp: isSingle_def canon_def split: list.splits)

lemma isSingle_Dot: "isSingle False s Dot (\<lambda>d. d \<noteq> CHR 0x0A \<and> d \<noteq> CHR 0x0D)"
  by (auto simp: isSingle_def split: list.splits)

lemmas rx_run_Star = rx_run.simps(11)

text \<open>A greedy star over such a pattern offers the longest run first, then the shorter ones.\<close>

lemma rx_run_Star_single:
  assumes "isSingle ic s a P"
  shows "rx_run ic s (Star a) (r, cs) =
           map (\<lambda>k. (drop k r, cs)) (rev [0..<Suc (length (takeWhile P r))])"
proof (induction r)
  case Nil
  from assms have "rx_run ic s a ([], cs) = []" by (simp add: isSingle_def)
  then show ?case by (simp add: rx_run_Star)
next
  case (Cons d r)
  show ?case
  proof (cases "P d")
    case False
    with assms have "rx_run ic s a (d # r, cs) = []" by (simp add: isSingle_def)
    with False show ?thesis by (simp add: rx_run_Star)
  next
    case True
    with assms have one: "rx_run ic s a (d # r, cs) = [(r, cs)]" by (simp add: isSingle_def)
    let ?n = "length (takeWhile P r)"
    have "rx_run ic s (Star a) (d # r, cs) = rx_run ic s (Star a) (r, cs) @ [(d # r, cs)]"
      by (subst rx_run_Star) (simp add: one)
    also have "\<dots> = map (\<lambda>k. (drop k r, cs)) (rev [0..<Suc ?n]) @ [(d # r, cs)]"
      by (simp only: Cons.IH)
    also have "\<dots> = map (\<lambda>k. (drop k (d # r), cs)) (map Suc (rev [0..<Suc ?n]) @ [0])"
      by (simp add: comp_def del: upt_Suc)
    also have "map Suc (rev [0..<Suc ?n]) @ [0] = rev [0..<Suc (Suc ?n)]"
      by (simp only: rev_map [symmetric] map_Suc_upt rev.simps(2) [symmetric] upt_conv_Cons
            [of 0 "Suc (Suc ?n)", OF zero_less_Suc])
    finally show ?thesis using True by simp
  qed
qed

lemma rx_run_Plus_single:
  assumes "isSingle ic s a P"
  shows "rx_run ic s (Plus a) (r, cs) =
           map (\<lambda>k. (drop k r, cs)) (rev [1..<Suc (length (takeWhile P r))])"
proof (cases r)
  case Nil
  with assms show ?thesis by (simp add: Plus_def isSingle_def)
next
  case (Cons d t)
  show ?thesis
  proof (cases "P d")
    case False
    with assms Cons show ?thesis by (simp add: Plus_def isSingle_def)
  next
    case True
    let ?n = "length (takeWhile P t)"
    from assms True Cons have "rx_run ic s (Plus a) (r, cs) = rx_run ic s (Star a) (t, cs)"
      by (simp add: Plus_def isSingle_def del: rx_run_Star)
    also have "\<dots> = map (\<lambda>k. (drop k t, cs)) (rev [0..<Suc ?n])"
      by (rule rx_run_Star_single [OF assms])
    also have "\<dots> = map (\<lambda>k. (drop k (d # t), cs)) (map Suc (rev [0..<Suc ?n]))"
      by (simp add: comp_def del: upt_Suc)
    also have "map Suc (rev [0..<Suc ?n]) = rev [1..<Suc (Suc ?n)]"
      by (simp only: rev_map [symmetric] map_Suc_upt One_nat_def)
    finally show ?thesis using True Cons by simp
  qed
qed

text \<open>
  When what follows the run fails wherever the run could have gone on, only the longest
  run counts.
\<close>

lemma concat_map_greedy_plus:
  assumes "\<And>k. 1 \<le> k \<Longrightarrow> k < n \<Longrightarrow> g k = []"
  shows "concat (map g (rev [1..<Suc n])) = (if n = 0 then [] else g n)"
proof (cases n)
  case 0
  then show ?thesis by simp
next
  case (Suc m)
  have "concat (map g (rev [1..<Suc m])) = []"
    using assms Suc by (auto simp del: upt_Suc)
  with Suc show ?thesis by simp
qed

lemma concat_map_greedy_star:
  assumes "\<And>k. k < n \<Longrightarrow> g k = []"
  shows "concat (map g (rev [0..<Suc n])) = g n"
proof -
  have "concat (map g (rev [0..<n])) = []"
    using assms by auto
  then show ?thesis by simp
qed

lemma drop_takeWhile_Cons:
  assumes "k < length (takeWhile P r)"
  shows "\<exists>d t. drop k r = d # t \<and> P d"
proof -
  from assms have k: "k < length r"
    using length_takeWhile_le [of P r] by simp
  from assms have "P (takeWhile P r ! k)"
    using nth_mem [OF assms] set_takeWhileD by fastforce
  with assms have "P (r ! k)" by (simp add: takeWhile_nth)
  with k show ?thesis by (auto simp: Cons_nth_drop_Suc [symmetric])
qed

lemma drop_length_takeWhile: "drop (length (takeWhile P r)) r = dropWhile P r"
  by (induction r) auto

lemma take_length_takeWhile: "take (length (takeWhile P r)) r = takeWhile P r"
  by (induction r) auto

text \<open>One step of a search, of a global match and of a global replacement.\<close>

declare rx_exec_loop.simps [simp del]
declare rx_match_g.simps [simp del]
declare rx_replace_g.simps [simp del]
declare rx_delete_g.simps [simp del]

lemma rx_match_g_Nil: "rx_run ic s r ([], []) = [] \<Longrightarrow> rx_match_g ic s r [] = []"
  by (subst rx_match_g.simps) simp

lemma rx_match_g_miss:
  assumes "rx_run ic s r (c # t, []) = []"
  shows "rx_match_g ic s r (c # t) = rx_match_g ic s r t"
proof -
  from assms have "rx_search ic s r (c # t) = rx_search ic s r t" by simp
  then show ?thesis
    by (subst rx_match_g.simps, subst (2) rx_match_g.simps) (simp only:)
qed

lemma rx_match_g_hit:
  assumes "rx_run ic s r (c # t, []) = (rest', cs) # alts" and "length rest' \<le> length t"
  shows "rx_match_g ic s r (c # t) =
           take (Suc (length t) - length rest') (c # t) # rx_match_g ic s r rest'"
proof -
  from assms(1) have "rx_search ic s r (c # t) = Some (c # t, rest', cs)" by simp
  with assms(2) show ?thesis
    by (subst rx_match_g.simps) simp
qed

lemma rx_replace_g_Nil: "rx_run ic s r ([], []) = [] \<Longrightarrow> rx_replace_g ic s r f [] = Some []"
  by (subst rx_replace_g.simps) simp

lemma rx_replace_g_miss:
  assumes "rx_run ic s r (c # t, []) = []"
  shows "rx_replace_g ic s r f (c # t) = map_option (Cons c) (rx_replace_g ic s r f t)"
proof -
  from assms have eq: "rx_search ic s r (c # t) = rx_search ic s r t" by simp
  show ?thesis
  proof (cases "rx_search ic s r t")
    case None
    have "rx_replace_g ic s r f (c # t) = Some (c # t)"
      by (subst rx_replace_g.simps) (simp add: assms None)
    moreover have "rx_replace_g ic s r f t = Some t"
      by (subst rx_replace_g.simps) (simp add: None)
    ultimately show ?thesis by simp
  next
    case (Some x)
    obtain st rest' cs where x: "x = (st, rest', cs)" by (cases x)
    from rx_search_length [of ic s r t st rest' cs] Some x have "length st \<le> length t" by simp
    then have tk: "take (Suc (length t) - length st) (c # t) = c # take (length t - length st) t"
      by (simp add: Suc_diff_le)
    show ?thesis
    proof (cases "f (mkMatch s r (st, rest', cs))")
      case None
      have "rx_replace_g ic s r f (c # t) = None"
        by (subst rx_replace_g.simps) (simp add: assms Some x None)
      moreover have "rx_replace_g ic s r f t = None"
        by (subst rx_replace_g.simps) (simp add: Some x None)
      ultimately show ?thesis by simp
    next
      case (Some rep)
      note fm = this
      define X where "X = (if length rest' < length st then rx_replace_g ic s r f rest'
         else (case st of [] \<Rightarrow> Some [] | c # t \<Rightarrow> map_option (Cons c) (rx_replace_g ic s r f t)))"
      have L: "rx_replace_g ic s r f (c # t) =
          map_option (\<lambda>out. (c # take (length t - length st) t) @ rep @ out) X"
        by (subst rx_replace_g.simps) (simp add: assms \<open>rx_search ic s r t = Some x\<close> x tk fm X_def)
      have R: "rx_replace_g ic s r f t =
          map_option (\<lambda>out. take (length t - length st) t @ rep @ out) X"
        by (subst rx_replace_g.simps) (simp add: \<open>rx_search ic s r t = Some x\<close> x fm X_def)
      show ?thesis unfolding L R
        by (simp add: option.map_comp comp_def)
    qed
  qed
qed

lemma rx_replace_g_hit:
  assumes "rx_run ic s r (c # t, []) = (rest', cs) # alts" and "length rest' \<le> length t"
  shows "rx_replace_g ic s r f (c # t) =
           (case f (mkMatch s r (c # t, rest', cs)) of
              None \<Rightarrow> None
            | Some rep \<Rightarrow> map_option (\<lambda>out. rep @ out) (rx_replace_g ic s r f rest'))"
proof -
  from assms(1) have "rx_search ic s r (c # t) = Some (c # t, rest', cs)" by simp
  with assms(2) show ?thesis
    by (subst rx_replace_g.simps) (simp split: option.splits)
qed

lemma map_rev_upt_hd:
  "0 < n \<Longrightarrow> map g (rev [1..<Suc n]) = g n # map g (rev [1..<n])"
  by simp

section \<open>Properties of the parameter extraction\<close>

text \<open>
  What the three passes of \<^verbatim>\<open>extractPathParams\<close> find, written as scans of the path: a
  colon followed by the longest run of characters other than \<^verbatim>\<open>/\<close>, not empty; an opening
  brace or square bracket, the longest run of characters other than \<^verbatim>\<open>]\<close> and \<^verbatim>\<open>}\<close>, not
  empty, and a closing brace or square bracket; \<^verbatim>\<open><\<close>, the longest run of characters
  other than \<^verbatim>\<open>>\<close>, not empty, and \<^verbatim>\<open>>\<close>. Each scan goes on after the text it found.
  As in the character classes of the source, the closing character need not be of the
  kind of the opening one: \<^verbatim>\<open>{id]\<close> is found as \<^verbatim>\<open>{id}\<close> is.
\<close>

function colonScan :: "string \<Rightarrow> string list" where
  "colonScan [] = []"
| "colonScan (c # t) =
     (if c = CHR '':'' \<and> takeWhile (\<lambda>d. d \<noteq> CHR ''/'') t \<noteq> []
      then (c # takeWhile (\<lambda>d. d \<noteq> CHR ''/'') t) # colonScan (dropWhile (\<lambda>d. d \<noteq> CHR ''/'') t)
      else colonScan t)"
  by pat_completeness auto
termination
  by (relation "measure length") (auto simp: length_dropWhile_le less_Suc_eq_le)

definition notClose :: "char \<Rightarrow> bool" where
  "notClose d = (d \<noteq> CHR '']'' \<and> d \<noteq> CHR ''}'')"

function bracketScan :: "string \<Rightarrow> string list" where
  "bracketScan [] = []"
| "bracketScan (c # t) =
     (if (c = CHR ''{'' \<or> c = CHR ''['') \<and> takeWhile notClose t \<noteq> []
         \<and> dropWhile notClose t \<noteq> []
      then (c # takeWhile notClose t @ [hd (dropWhile notClose t)]) #
           bracketScan (tl (dropWhile notClose t))
      else bracketScan t)"
  by pat_completeness auto
termination
proof (relation "measure length")
  fix c t
  have "length (tl (dropWhile notClose t)) \<le> length t"
    using length_dropWhile_le [of notClose t] by simp
  then show "(tl (dropWhile notClose t), c # t) \<in> measure length" by simp
qed simp_all

function angleScan :: "string \<Rightarrow> string list" where
  "angleScan [] = []"
| "angleScan (c # t) =
     (if c = CHR ''<'' \<and> takeWhile (\<lambda>d. d \<noteq> CHR ''>'') t \<noteq> []
         \<and> dropWhile (\<lambda>d. d \<noteq> CHR ''>'') t \<noteq> []
      then (c # takeWhile (\<lambda>d. d \<noteq> CHR ''>'') t @ ''>'') #
           angleScan (tl (dropWhile (\<lambda>d. d \<noteq> CHR ''>'') t))
      else angleScan t)"
  by pat_completeness auto
termination
proof (relation "measure length")
  fix c t
  have "length (tl (dropWhile (\<lambda>d. d \<noteq> CHR ''>'') t)) \<le> length t"
    using length_dropWhile_le [of "\<lambda>d. d \<noteq> CHR ''>''" t] by simp
  then show "(tl (dropWhile (\<lambda>d. d \<noteq> CHR ''>'') t), c # t) \<in> measure length" by simp
qed simp_all

lemma length_take_drop_While:
  "length t - length (dropWhile P t) = length (takeWhile P t)"
proof -
  have "length (takeWhile P t) + length (dropWhile P t) = length t"
    by (simp flip: length_append)
  then show ?thesis by simp
qed

lemma rev_upt_hd: "0 < n \<Longrightarrow> rev [Suc 0..<Suc n] = n # rev [Suc 0..<n]"
  by simp

lemma colon_run:
  "rx_run False s colon_rx (c # t, []) =
     (if c = CHR '':'' then
        map (\<lambda>k. (drop k t, [(1, take (length t - length (drop k t)) t)]))
            (rev [1..<Suc (length (takeWhile (\<lambda>d. d \<noteq> CHR ''/'') t))])
      else [])"
  using rx_run_Plus_single [OF isSingle_NCls [of s "''/''"], of t "[]"]
  by (simp add: colon_rx_def canon_def comp_def del: upt_Suc)

lemma colon_run_Nil: "rx_run False s colon_rx ([], []) = []"
  by (simp add: colon_rx_def)

lemma rx_match_g_colon: "rx_match_g False s colon_rx rest = colonScan rest"
proof (induction rest rule: colonScan.induct)
  case 1
  show ?case by (simp add: rx_match_g_Nil colon_run_Nil)
next
  case (2 c t)
  let ?P = "\<lambda>d. d \<noteq> CHR ''/''"
  let ?n = "length (takeWhile ?P t)"
  show ?case
  proof (cases "c = CHR '':'' \<and> takeWhile ?P t \<noteq> []")
    case False
    then have "rx_run False s colon_rx (c # t, []) = []"
      by (auto simp: colon_run)
    from rx_match_g_miss [OF this] False 2 show ?thesis by auto
  next
    case True
    then have n: "0 < ?n" by simp
    have "rx_run False s colon_rx (c # t, []) =
        (drop ?n t, [(1, take (length t - length (drop ?n t)) t)]) #
        map (\<lambda>k. (drop k t, [(1, take (length t - length (drop k t)) t)])) (rev [1..<?n])"
      using True n by (simp add: colon_run rev_upt_hd del: upt_Suc)
    from rx_match_g_hit [OF this]
    have "rx_match_g False s colon_rx (c # t) =
        take (Suc (length t) - length (drop ?n t)) (c # t) # rx_match_g False s colon_rx (drop ?n t)"
      by simp
    moreover have "drop ?n t = dropWhile ?P t" by (rule drop_length_takeWhile)
    moreover have "take (Suc (length t) - length (dropWhile ?P t)) (c # t) = c # takeWhile ?P t"
      using length_dropWhile_le [of ?P t]
      by (simp add: Suc_diff_le length_take_drop_While take_length_takeWhile)
    ultimately show ?thesis using True 2 by simp
  qed
qed


text \<open>
  A captured greedy run followed by a pattern that fails wherever the run could have
  gone on: the run is the longest one.
\<close>

lemma rx_run_Grp_Plus_then:
  assumes single: "isSingle ic s a P"
    and stop: "\<And>d r' cs'. P d \<Longrightarrow> rx_run ic s b (d # r', cs') = []"
  shows "rx_run ic s (Seq (Grp g (Plus a)) b) (t, cs) =
           (if takeWhile P t = [] then []
            else rx_run ic s b (dropWhile P t, (g, takeWhile P t) # cs))"
proof -
  let ?n = "length (takeWhile P t)"
  let ?G = "\<lambda>k. rx_run ic s b (drop k t, (g, take (length t - length (drop k t)) t) # cs)"
  have "rx_run ic s (Seq (Grp g (Plus a)) b) (t, cs) = concat (map ?G (rev [1..<Suc ?n]))"
    by (simp add: rx_run_Plus_single [OF single] comp_def del: upt_Suc)
  also have "\<dots> = (if ?n = 0 then [] else ?G ?n)"
  proof (rule concat_map_greedy_plus)
    fix k assume "1 \<le> k" and "k < ?n"
    from drop_takeWhile_Cons [OF this(2)] obtain d t' where "drop k t = d # t'" and "P d"
      by blast
    then show "?G k = []" by (simp add: stop)
  qed
  also have "?G ?n = rx_run ic s b (dropWhile P t, (g, takeWhile P t) # cs)"
    by (simp add: drop_length_takeWhile length_take_drop_While take_length_takeWhile)
  finally show ?thesis by simp
qed

lemma rx_run_Grp_Star_then:
  assumes single: "isSingle ic s a P"
    and stop: "\<And>d r' cs'. P d \<Longrightarrow> rx_run ic s b (d # r', cs') = []"
  shows "rx_run ic s (Seq (Grp g (Star a)) b) (t, cs) =
           rx_run ic s b (dropWhile P t, (g, takeWhile P t) # cs)"
proof -
  let ?n = "length (takeWhile P t)"
  let ?G = "\<lambda>k. rx_run ic s b (drop k t, (g, take (length t - length (drop k t)) t) # cs)"
  have "rx_run ic s (Seq (Grp g (Star a)) b) (t, cs) = concat (map ?G (rev [0..<Suc ?n]))"
    by (simp add: rx_run_Star_single [OF single] comp_def del: upt_Suc rx_run_Star)
  also have "\<dots> = ?G ?n"
  proof (rule concat_map_greedy_star)
    fix k assume "k < ?n"
    from drop_takeWhile_Cons [OF this] obtain d t' where "drop k t = d # t'" and "P d"
      by blast
    then show "?G k = []" by (simp add: stop)
  qed
  also have "?G ?n = rx_run ic s b (dropWhile P t, (g, takeWhile P t) # cs)"
    by (simp add: drop_length_takeWhile length_take_drop_While take_length_takeWhile)
  finally show ?thesis .
qed

lemma isSingle_notClose: "isSingle False s (NCls '']}'') notClose"
  by (auto simp: isSingle_def notClose_def canon_def split: list.splits)

lemma bracket_run:
  "rx_run False s bracket_rx (c # t, []) =
     (if (c = CHR ''{'' \<or> c = CHR ''['') \<and> takeWhile notClose t \<noteq> [] \<and> dropWhile notClose t \<noteq> []
      then [(tl (dropWhile notClose t), [(1, takeWhile notClose t)])]
      else [])"
proof -
  have stop: "\<And>d r' cs'. notClose d \<Longrightarrow> rx_run False s (Cls ''}]'') (d # r', cs') = []"
    by (auto simp: notClose_def canon_def)
  have close: "rx_run False s (Cls ''}]'') (dropWhile notClose t, cs') =
      (if dropWhile notClose t = [] then [] else [(tl (dropWhile notClose t), cs')])" for cs'
  proof (cases "dropWhile notClose t")
    case Nil
    show ?thesis unfolding Nil by simp
  next
    case (Cons e r')
    from hd_dropWhile [of notClose t] Cons have "\<not> notClose e" by simp
    then show ?thesis unfolding Cons by (auto simp: notClose_def canon_def)
  qed
  note inner = rx_run_Grp_Plus_then [OF isSingle_notClose stop, where g = "Suc 0" and t = t and cs = "[]"]
  have outer: "rx_run False s bracket_rx (c # t, []) =
      concat (map (rx_run False s (Seq (Grp (Suc 0) (Plus (NCls '']}''))) (Cls ''}]'')))
                  (rx_run False s (Cls ''{['') (c # t, [])))"
    unfolding bracket_rx_def Seqs.simps One_nat_def by (rule rx_run.simps(9))
  show ?thesis
  proof (cases "c = CHR ''{'' \<or> c = CHR ''[''")
    case True
    then have "rx_run False s (Cls ''{['') (c # t, []) = [(t, [])]"
      by (auto simp: canon_def)
    with True show ?thesis unfolding outer
      by (simp add: inner close del: rx_run.simps)
  next
    case False
    then have "rx_run False s (Cls ''{['') (c # t, []) = []"
      by (auto simp: canon_def)
    with False show ?thesis unfolding outer by simp
  qed
qed

lemma bracket_run_Nil: "rx_run False s bracket_rx ([], []) = []"
  by (simp add: bracket_rx_def)

lemma rx_match_g_bracket: "rx_match_g False s bracket_rx rest = bracketScan rest"
proof (induction rest rule: bracketScan.induct)
  case 1
  show ?case by (simp add: rx_match_g_Nil bracket_run_Nil)
next
  case (2 c t)
  let ?d = "dropWhile notClose t"
  show ?case
  proof (cases "(c = CHR ''{'' \<or> c = CHR ''['') \<and> takeWhile notClose t \<noteq> [] \<and> ?d \<noteq> []")
    case False
    then have "rx_run False s bracket_rx (c # t, []) = []"
      by (simp add: bracket_run)
    from rx_match_g_miss [OF this] False 2 show ?thesis by auto
  next
    case True
    then have run: "rx_run False s bracket_rx (c # t, []) =
        (tl ?d, [(1, takeWhile notClose t)]) # []"
      by (simp add: bracket_run)
    have len: "length (tl ?d) \<le> length t"
      using length_dropWhile_le [of notClose t] by simp
    from True have d: "?d = hd ?d # tl ?d" by simp
    have "t = takeWhile notClose t @ hd ?d # tl ?d"
      using d takeWhile_dropWhile_id [of notClose t] by simp
    then have "take (length t - length (tl ?d)) t = takeWhile notClose t @ [hd ?d]"
      by (metis append.assoc append_Cons append_Nil append_eq_conv_conj diff_add_inverse2
            length_append)
    then have "take (Suc (length t) - length (tl ?d)) (c # t) =
        c # takeWhile notClose t @ [hd ?d]"
      using len by (simp add: Suc_diff_le)
    with rx_match_g_hit [OF run len] True 2 show ?thesis by simp
  qed
qed


definition notGt :: "char \<Rightarrow> bool" where
  "notGt d = (d \<noteq> CHR ''>'')"

lemma isSingle_notGt: "isSingle False s (NCls ''>'') notGt"
  by (auto simp: isSingle_def notGt_def canon_def split: list.splits)

lemma angle_run:
  "rx_run False s angle_rx (c # t, []) =
     (if c = CHR ''<'' \<and> takeWhile notGt t \<noteq> [] \<and> dropWhile notGt t \<noteq> []
      then [(tl (dropWhile notGt t), [(1, takeWhile notGt t)])]
      else [])"
proof -
  have stop: "\<And>d r' cs'. notGt d \<Longrightarrow> rx_run False s (Lit CHR ''>'') (d # r', cs') = []"
    by (auto simp: notGt_def canon_def)
  have close: "rx_run False s (Lit CHR ''>'') (dropWhile notGt t, cs') =
      (if dropWhile notGt t = [] then [] else [(tl (dropWhile notGt t), cs')])" for cs'
  proof (cases "dropWhile notGt t")
    case Nil
    show ?thesis unfolding Nil by simp
  next
    case (Cons e r')
    from hd_dropWhile [of notGt t] Cons have "\<not> notGt e" by simp
    then show ?thesis unfolding Cons by (auto simp: notGt_def canon_def)
  qed
  note inner = rx_run_Grp_Plus_then [OF isSingle_notGt stop, where g = "Suc 0" and t = t and cs = "[]"]
  have outer: "rx_run False s angle_rx (c # t, []) =
      concat (map (rx_run False s (Seq (Grp (Suc 0) (Plus (NCls ''>''))) (Lit CHR ''>'')))
                  (rx_run False s (Lit CHR ''<'') (c # t, [])))"
    unfolding angle_rx_def Seqs.simps One_nat_def by (rule rx_run.simps(9))
  show ?thesis
  proof (cases "c = CHR ''<''")
    case True
    then have "rx_run False s (Lit CHR ''<'') (c # t, []) = [(t, [])]"
      by (auto simp: canon_def)
    with True show ?thesis unfolding outer
      by (simp add: inner close del: rx_run.simps)
  next
    case False
    then have "rx_run False s (Lit CHR ''<'') (c # t, []) = []"
      by (auto simp: canon_def)
    with False show ?thesis unfolding outer by simp
  qed
qed

lemma angle_run_Nil: "rx_run False s angle_rx ([], []) = []"
  by (simp add: angle_rx_def)

lemma take_upto_close:
  assumes "dropWhile P t \<noteq> []"
  shows "take (Suc (length t) - length (tl (dropWhile P t))) (c # t) =
           c # takeWhile P t @ [hd (dropWhile P t)]"
proof -
  let ?d = "dropWhile P t"
  have len: "length (tl ?d) \<le> length t"
    using length_dropWhile_le [of P t] by simp
  from assms have d: "?d = hd ?d # tl ?d" by simp
  have "t = (takeWhile P t @ [hd ?d]) @ tl ?d"
    using d takeWhile_dropWhile_id [of P t] by simp
  then have "take (length t - length (tl ?d)) t = takeWhile P t @ [hd ?d]"
    by (metis append_eq_conv_conj diff_add_inverse2 length_append)
  then show ?thesis using len by (simp add: Suc_diff_le)
qed

lemma rx_match_g_angle: "rx_match_g False s angle_rx rest = angleScan rest"
proof (induction rest rule: angleScan.induct)
  case 1
  show ?case by (simp add: rx_match_g_Nil angle_run_Nil)
next
  case (2 c t)
  let ?d = "dropWhile (\<lambda>d. d \<noteq> CHR ''>'') t"
  have P: "notGt = (\<lambda>d. d \<noteq> CHR ''>'')" by (simp add: notGt_def fun_eq_iff)
  show ?case
  proof (cases "c = CHR ''<'' \<and> takeWhile (\<lambda>d. d \<noteq> CHR ''>'') t \<noteq> [] \<and> ?d \<noteq> []")
    case False
    then have "rx_run False s angle_rx (c # t, []) = []"
      by (simp add: angle_run P)
    from rx_match_g_miss [OF this] False 2 show ?thesis by auto
  next
    case True
    then have run: "rx_run False s angle_rx (c # t, []) =
        (tl ?d, [(1, takeWhile (\<lambda>d. d \<noteq> CHR ''>'') t)]) # []"
      by (simp add: angle_run P)
    have len: "length (tl ?d) \<le> length t"
      using length_dropWhile_le [of "\<lambda>d. d \<noteq> CHR ''>''" t] by simp
    from True have "?d \<noteq> []" by simp
    from hd_dropWhile [OF this] have "hd ?d = CHR ''>''" by simp
    with take_upto_close [of "\<lambda>d. d \<noteq> CHR ''>''" t c] True
    have "take (Suc (length t) - length (tl ?d)) (c # t) =
        c # takeWhile (\<lambda>d. d \<noteq> CHR ''>'') t @ ''>''" by simp
    with rx_match_g_hit [OF run len] True 2 show ?thesis by simp
  qed
qed

text \<open>The three passes of \<^verbatim>\<open>extractPathParams\<close> are the three scans.\<close>

lemma extractPathParams_scans:
  "extractPathParams p =
     map slice1 (colonScan p) @ map slice1m1 (bracketScan p) @ map slice1m1 (angleScan p)"
  by (simp add: extractPathParams_def rx_match_g_colon rx_match_g_bracket rx_match_g_angle)

text \<open>
  Route paths as the frameworks write them: segments after slashes, each a literal or a
  parameter in one of the syntaxes, names and literals free of the characters the
  syntaxes use.
\<close>

datatype segment = Static string | Colon string | Brace string | Square string | Angle string

fun renderSegment :: "segment \<Rightarrow> string" where
  "renderSegment (Static t) = t"
| "renderSegment (Colon n) = '':'' @ n"
| "renderSegment (Brace n) = ''{'' @ n @ ''}''"
| "renderSegment (Square n) = ''['' @ n @ '']''"
| "renderSegment (Angle n) = ''<'' @ n @ ''>''"

definition renderPath :: "segment list \<Rightarrow> string" where
  "renderPath segs = concat (map (\<lambda>seg. CHR ''/'' # renderSegment seg) segs)"

definition plain :: "string \<Rightarrow> bool" where
  "plain t = (\<forall>c\<in>set t. c \<noteq> CHR ''/'' \<and> c \<noteq> CHR '':'' \<and> c \<noteq> CHR ''{'' \<and> c \<noteq> CHR ''}'' \<and>
     c \<noteq> CHR ''['' \<and> c \<noteq> CHR '']'' \<and> c \<noteq> CHR ''<'' \<and> c \<noteq> CHR ''>'')"

fun wellFormed :: "segment \<Rightarrow> bool" where
  "wellFormed (Static t) = plain t"
| "wellFormed (Colon n) = (n \<noteq> [] \<and> plain n)"
| "wellFormed (Brace n) = (n \<noteq> [] \<and> plain n)"
| "wellFormed (Square n) = (n \<noteq> [] \<and> plain n)"
| "wellFormed (Angle n) = (n \<noteq> [] \<and> plain n)"

fun colonNames :: "segment list \<Rightarrow> string list" where
  "colonNames [] = []"
| "colonNames (Colon n # segs) = n # colonNames segs"
| "colonNames (_ # segs) = colonNames segs"

fun bracketNames :: "segment list \<Rightarrow> string list" where
  "bracketNames [] = []"
| "bracketNames (Brace n # segs) = n # bracketNames segs"
| "bracketNames (Square n # segs) = n # bracketNames segs"
| "bracketNames (_ # segs) = bracketNames segs"

fun angleNames :: "segment list \<Rightarrow> string list" where
  "angleNames [] = []"
| "angleNames (Angle n # segs) = n # angleNames segs"
| "angleNames (_ # segs) = angleNames segs"

lemma renderPath_Nil: "renderPath [] = []"
  by (simp add: renderPath_def)

lemma renderPath_Cons:
  "renderPath (seg # segs) = CHR ''/'' # renderSegment seg @ renderPath segs"
  by (simp add: renderPath_def)

lemma renderPath_head: "renderPath segs = [] \<or> (\<exists>R. renderPath segs = CHR ''/'' # R)"
  by (cases segs) (simp_all add: renderPath_Nil renderPath_Cons)

lemma takeWhile_run:
  assumes "\<forall>c\<in>set n. P c" and "R = [] \<or> (\<exists>e R'. R = e # R' \<and> \<not> P e)"
  shows "takeWhile P (n @ R) = n" and "dropWhile P (n @ R) = R"
  using assms by (auto simp: takeWhile_append2 dropWhile_append2)

lemma colonScan_skip: "CHR '':'' \<notin> set u \<Longrightarrow> colonScan (u @ R) = colonScan R"
  by (induction u) auto

lemma bracketScan_skip:
  "CHR ''{'' \<notin> set u \<Longrightarrow> CHR ''['' \<notin> set u \<Longrightarrow> bracketScan (u @ R) = bracketScan R"
  by (induction u) auto

lemma angleScan_skip: "CHR ''<'' \<notin> set u \<Longrightarrow> angleScan (u @ R) = angleScan R"
  by (induction u) auto

lemma colonScan_renderPath:
  "\<forall>seg\<in>set segs. wellFormed seg \<Longrightarrow>
     colonScan (renderPath segs) = map (\<lambda>n. CHR '':'' # n) (colonNames segs)"
proof (induction segs)
  case Nil
  show ?case by (simp add: renderPath_Nil)
next
  case (Cons seg segs)
  let ?R = "renderPath segs"
  from Cons have ih: "colonScan ?R = map (\<lambda>n. CHR '':'' # n) (colonNames segs)" by simp
  have slash: "colonScan (CHR ''/'' # X) = colonScan X" for X by simp
  show ?case
  proof (cases seg)
    case (Static t)
    with Cons.prems have "CHR '':'' \<notin> set t" by (auto simp: plain_def)
    with Static ih show ?thesis
      by (simp add: renderPath_Cons colonScan_skip del: colonScan.simps) (simp add: colonScan_skip)
  next
    case (Colon n)
    with Cons.prems have n: "n \<noteq> []" "\<forall>c\<in>set n. c \<noteq> CHR ''/''" by (auto simp: plain_def)
    from renderPath_head [of segs]
    have R: "?R = [] \<or> (\<exists>e R'. ?R = e # R' \<and> \<not> e \<noteq> CHR ''/'')" by auto
    note tw = takeWhile_run [where P = "\<lambda>d. d \<noteq> CHR ''/''", OF n(2) R]
    from Colon ih n show ?thesis
      by (simp add: renderPath_Cons tw)
  next
    case (Brace n)
    with Cons.prems have "CHR '':'' \<notin> set (''{'' @ n @ ''}'')" by (auto simp: plain_def)
    from colonScan_skip [OF this, of ?R] Brace ih show ?thesis
      by (simp add: renderPath_Cons)
  next
    case (Square n)
    with Cons.prems have "CHR '':'' \<notin> set (''['' @ n @ '']'')" by (auto simp: plain_def)
    from colonScan_skip [OF this, of ?R] Square ih show ?thesis
      by (simp add: renderPath_Cons)
  next
    case (Angle n)
    with Cons.prems have "CHR '':'' \<notin> set (''<'' @ n @ ''>'')" by (auto simp: plain_def)
    from colonScan_skip [OF this, of ?R] Angle ih show ?thesis
      by (simp add: renderPath_Cons)
  qed
qed


lemma bracketScan_renderPath:
  "\<forall>seg\<in>set segs. wellFormed seg \<Longrightarrow>
     bracketScan (renderPath segs) =
       map (\<lambda>seg. renderSegment seg) (filter (\<lambda>seg. case seg of Brace _ \<Rightarrow> True | Square _ \<Rightarrow> True | _ \<Rightarrow> False) segs)"
proof (induction segs)
  case Nil
  show ?case by (simp add: renderPath_Nil)
next
  case (Cons seg segs)
  let ?R = "renderPath segs"
  from Cons have ih: "bracketScan ?R =
      map (\<lambda>seg. renderSegment seg) (filter (\<lambda>seg. case seg of Brace _ \<Rightarrow> True | Square _ \<Rightarrow> True | _ \<Rightarrow> False) segs)"
    by simp
  show ?case
  proof (cases seg)
    case (Static t)
    with Cons.prems have "CHR ''{'' \<notin> set t" "CHR ''['' \<notin> set t" by (auto simp: plain_def)
    from bracketScan_skip [OF this, of ?R] Static ih show ?thesis
      by (simp add: renderPath_Cons)
  next
    case (Colon n)
    with Cons.prems have "CHR ''{'' \<notin> set ('':'' @ n)" "CHR ''['' \<notin> set ('':'' @ n)"
      by (auto simp: plain_def)
    from bracketScan_skip [OF this, of ?R] Colon ih show ?thesis
      by (simp add: renderPath_Cons)
  next
    case (Brace n)
    with Cons.prems have n: "n \<noteq> []" "\<forall>c\<in>set n. notClose c" by (auto simp: plain_def notClose_def)
    have R: "CHR ''}'' # ?R = [] \<or> (\<exists>e R'. CHR ''}'' # ?R = e # R' \<and> \<not> notClose e)"
      by (simp add: notClose_def)
    note tw = takeWhile_run [where P = notClose, OF n(2) R]
    from Brace ih n show ?thesis
      by (simp add: renderPath_Cons tw)
  next
    case (Square n)
    with Cons.prems have n: "n \<noteq> []" "\<forall>c\<in>set n. notClose c" by (auto simp: plain_def notClose_def)
    have R: "CHR '']'' # ?R = [] \<or> (\<exists>e R'. CHR '']'' # ?R = e # R' \<and> \<not> notClose e)"
      by (simp add: notClose_def)
    note tw = takeWhile_run [where P = notClose, OF n(2) R]
    from Square ih n show ?thesis
      by (simp add: renderPath_Cons tw)
  next
    case (Angle n)
    with Cons.prems have "CHR ''{'' \<notin> set (''<'' @ n @ ''>'')" "CHR ''['' \<notin> set (''<'' @ n @ ''>'')"
      by (auto simp: plain_def)
    from bracketScan_skip [OF this, of ?R] Angle ih show ?thesis
      by (simp add: renderPath_Cons)
  qed
qed

lemma angleScan_renderPath:
  "\<forall>seg\<in>set segs. wellFormed seg \<Longrightarrow>
     angleScan (renderPath segs) = map (\<lambda>n. ''<'' @ n @ ''>'') (angleNames segs)"
proof (induction segs)
  case Nil
  show ?case by (simp add: renderPath_Nil)
next
  case (Cons seg segs)
  let ?R = "renderPath segs"
  from Cons have ih: "angleScan ?R = map (\<lambda>n. ''<'' @ n @ ''>'') (angleNames segs)" by simp
  show ?case
  proof (cases seg)
    case (Static t)
    with Cons.prems have "CHR ''<'' \<notin> set t" by (auto simp: plain_def)
    from angleScan_skip [OF this, of ?R] Static ih show ?thesis
      by (simp add: renderPath_Cons)
  next
    case (Colon n)
    with Cons.prems have "CHR ''<'' \<notin> set ('':'' @ n)" by (auto simp: plain_def)
    from angleScan_skip [OF this, of ?R] Colon ih show ?thesis
      by (simp add: renderPath_Cons)
  next
    case (Brace n)
    with Cons.prems have "CHR ''<'' \<notin> set (''{'' @ n @ ''}'')" by (auto simp: plain_def)
    from angleScan_skip [OF this, of ?R] Brace ih show ?thesis
      by (simp add: renderPath_Cons)
  next
    case (Square n)
    with Cons.prems have "CHR ''<'' \<notin> set (''['' @ n @ '']'')" by (auto simp: plain_def)
    from angleScan_skip [OF this, of ?R] Square ih show ?thesis
      by (simp add: renderPath_Cons)
  next
    case (Angle n)
    with Cons.prems have n: "n \<noteq> []" "\<forall>c\<in>set n. c \<noteq> CHR ''>''" by (auto simp: plain_def)
    have R: "CHR ''>'' # ?R = [] \<or> (\<exists>e R'. CHR ''>'' # ?R = e # R' \<and> \<not> e \<noteq> CHR ''>'')"
      by simp
    note tw = takeWhile_run [where P = "\<lambda>d. d \<noteq> CHR ''>''", OF n(2) R]
    from Angle ih n show ?thesis
      by (simp add: renderPath_Cons tw)
  qed
qed

lemma bracket_names_slice:
  "map slice1m1 (map (\<lambda>seg. renderSegment seg)
     (filter (\<lambda>seg. case seg of Brace _ \<Rightarrow> True | Square _ \<Rightarrow> True | _ \<Rightarrow> False) segs)) =
   bracketNames segs"
proof (induction segs)
  case Nil
  show ?case by simp
next
  case (Cons seg segs)
  then show ?case by (cases seg) (simp_all add: slice1m1_def)
qed

text \<open>
  C4, as the claim states it, fails: in \<^verbatim>\<open>/a/{x}/:y\<close> the parameter \<^verbatim>\<open>x\<close> comes first, and
  the extraction lists \<^verbatim>\<open>y\<close> before it.
\<close>

theorem params_not_in_order:
  "extractPathParams ''/a/{x}/:y'' = [''y'', ''x''] \<and> extractPathParams ''/a/{x}/:y'' \<noteq> [''x'', ''y'']"
  by code_simp

lemma params_examples:
  "extractPathParams ''/users/:id/posts/:postId'' = [''id'', ''postId'']"
  "extractPathParams ''/users/{id}'' = [''id'']"
  "extractPathParams ''/users/<id>'' = [''id'']"
  "extractPathParams ''/a/{x}/:y'' = [''y'', ''x'']"
  by code_simp+

text \<open>
  Paths that are not made of such segments: a Flask parameter with a converter is found
  by the scan for colons and by the scan for angle brackets, and a brace closed by a
  square bracket is found by the scan for braces and brackets.
\<close>

lemma params_other_paths:
  "extractPathParams ''/u/<int:id>'' = [''id>'', ''int:id'']"
  "extractPathParams ''/users/{id]'' = [''id'']"
  by code_simp+

text \<open>
  C4, amended. On every path the extraction returns what three scans of the path find,
  one scan after the other, each from left to right: first, for every colon followed by
  a character other than \<^verbatim>\<open>/\<close>, the longest run of characters other than \<^verbatim>\<open>/\<close> after it;
  then, for every \<^verbatim>\<open>{\<close> or \<^verbatim>\<open>[\<close> followed by a longest run of characters other than \<^verbatim>\<open>]\<close>
  and \<^verbatim>\<open>}\<close> that is not empty and is followed by \<^verbatim>\<open>}\<close> or \<^verbatim>\<open>]\<close>, whichever of the two, that
  run; then, for every \<^verbatim>\<open><\<close> followed by a longest run of characters other than \<^verbatim>\<open>>\<close> that
  is not empty and is followed by \<^verbatim>\<open>>\<close>, that run. A scan goes on behind what it found.
  On a path of segments after slashes, each a literal or one parameter \<^verbatim>\<open>:name\<close>,
  \<^verbatim>\<open>{name}\<close>, \<^verbatim>\<open>[name]\<close> or \<^verbatim>\<open><name>\<close>, with names that are not empty and names and
  literals free of the characters \<^verbatim>\<open>/ : { } [ ] < >\<close>, the result is the names of the colon
  parameters, then those of the brace and square-bracket parameters, then those of the
  angle-bracket parameters, each group in the order of the path. On other paths one
  text can be found by two scans, as in \<^verbatim>\<open>/u/<int:id>\<close>.
\<close>

theorem params_by_syntax:
  "(\<forall>p. extractPathParams p =
      map slice1 (colonScan p) @ map slice1m1 (bracketScan p) @ map slice1m1 (angleScan p)) \<and>
   (\<forall>segs. (\<forall>seg\<in>set segs. wellFormed seg) \<longrightarrow>
      extractPathParams (renderPath segs) =
        colonNames segs @ bracketNames segs @ angleNames segs) \<and>
   extractPathParams ''/users/:id/posts/:postId'' = [''id'', ''postId''] \<and>
   extractPathParams ''/users/{id}'' = [''id''] \<and>
   extractPathParams ''/users/<id>'' = [''id''] \<and>
   extractPathParams ''/a/{x}/:y'' = [''y'', ''x''] \<and>
   extractPathParams ''/u/<int:id>'' = [''id>'', ''int:id''] \<and>
   extractPathParams ''/users/{id]'' = [''id'']"
proof (intro conjI allI impI)
  fix p
  show "extractPathParams p =
      map slice1 (colonScan p) @ map slice1m1 (bracketScan p) @ map slice1m1 (angleScan p)"
    by (rule extractPathParams_scans)
next
  fix segs
  assume wf: "\<forall>seg\<in>set segs. wellFormed seg"
  have "map slice1 (colonScan (renderPath segs)) = colonNames segs"
    by (simp add: colonScan_renderPath [OF wf] slice1_def comp_def)
  moreover have "map slice1m1 (bracketScan (renderPath segs)) = bracketNames segs"
    by (simp only: bracketScan_renderPath [OF wf] bracket_names_slice)
  moreover have "map slice1m1 (angleScan (renderPath segs)) = angleNames segs"
    by (simp add: angleScan_renderPath [OF wf] slice1m1_def comp_def)
  ultimately show "extractPathParams (renderPath segs) =
      colonNames segs @ bracketNames segs @ angleNames segs"
    by (simp only: extractPathParams_scans)
qed (rule params_examples params_other_paths)+

theorem params_by_syntax_witness:
  "list_all wellFormed [Static ''a'', Brace ''x'', Colon ''y'', Angle ''z'', Square ''w''] \<and>
   renderPath [Static ''a'', Brace ''x'', Colon ''y'', Angle ''z'', Square ''w''] = ''/a/{x}/:y/<z>/[w]'' \<and>
   extractPathParams ''/a/{x}/:y/<z>/[w]'' = [''y'', ''x'', ''w'', ''z'']"
proof -
  have wf: "\<forall>seg\<in>set [Static ''a'', Brace ''x'', Colon ''y'', Angle ''z'', Square ''w'']. wellFormed seg"
    by (simp add: plain_def)
  have r: "renderPath [Static ''a'', Brace ''x'', Colon ''y'', Angle ''z'', Square ''w''] = ''/a/{x}/:y/<z>/[w]''"
    by (simp add: renderPath_def)
  from params_by_syntax wf
  have "extractPathParams (renderPath [Static ''a'', Brace ''x'', Colon ''y'', Angle ''z'', Square ''w'']) =
      colonNames [Static ''a'', Brace ''x'', Colon ''y'', Angle ''z'', Square ''w''] @
      bracketNames [Static ''a'', Brace ''x'', Colon ''y'', Angle ''z'', Square ''w''] @
      angleNames [Static ''a'', Brace ''x'', Colon ''y'', Angle ''z'', Square ''w'']"
    by blast
  with wf r show ?thesis by (simp add: list_all_iff)
qed

section \<open>Properties of the .env reader\<close>

text \<open>
  What one line of a .env file contributes, in the words of the specification: nothing
  if the trimmed line is empty or starts with \<^verbatim>\<open>#\<close>; otherwise, if the line has an \<^verbatim>\<open>=\<close>
  with text before it and no line terminator after it, the trimmed text before the first
  \<^verbatim>\<open>=\<close> as key and the trimmed text after it, one level of quotes stripped, as value.
  The step assigns the value to the key the way the code does, with \<open>setProperty\<close>.
\<close>

definition notLineEnd :: "char \<Rightarrow> bool" where
  "notLineEnd d = (d \<noteq> CHR 0x0A \<and> d \<noteq> CHR 0x0D)"

definition notEq :: "char \<Rightarrow> bool" where
  "notEq d = (d \<noteq> CHR ''='')"

definition envLine :: "string \<Rightarrow> (string \<times> string) option" where
  "envLine l =
     (let t = trim l; k = takeWhile notEq t; r = dropWhile notEq t in
      if t = [] \<or> startsWith t ''#'' then None
      else if k = [] \<or> r = [] \<or> \<not> list_all notLineEnd (tl r) then None
      else Some (trim k, stripQuotes (trim (tl r))))"

definition envStep :: "(string \<rightharpoonup> string) \<Rightarrow> string \<Rightarrow> (string \<rightharpoonup> string)" where
  "envStep vars l = (case envLine l of None \<Rightarrow> vars | Some (k, v) \<Rightarrow> setProperty vars k v)"

lemma isSingle_notEq: "isSingle False s (NCls ''='') notEq"
  by (auto simp: isSingle_def notEq_def canon_def split: list.splits)

lemma isSingle_notLineEnd: "isSingle False s Dot notLineEnd"
  by (auto simp: isSingle_def notLineEnd_def split: list.splits)

lemma dropWhile_Nil_all: "(dropWhile P xs = []) = list_all P xs"
  by (induction xs) auto

lemma env_value_run:
  "rx_run False s (Seq (Grp 2 (Star Dot)) Eol) (r2, cs) =
     (if list_all notLineEnd r2 then [([], (2, r2) # cs)] else [])"
proof -
  have stop: "\<And>d r' cs'. notLineEnd d \<Longrightarrow> rx_run False s Eol (d # r', cs') = []"
    by simp
  have "rx_run False s (Seq (Grp 2 (Star Dot)) Eol) (r2, cs) =
      rx_run False s Eol (dropWhile notLineEnd r2, (2, takeWhile notLineEnd r2) # cs)"
    by (rule rx_run_Grp_Star_then [OF isSingle_notLineEnd stop])
  also have "\<dots> = (if list_all notLineEnd r2 then [([], (2, r2) # cs)] else [])"
  proof (cases "list_all notLineEnd r2")
    case True
    then have "dropWhile notLineEnd r2 = []" "takeWhile notLineEnd r2 = r2"
      by (simp_all add: list_all_iff)
    with True show ?thesis by simp
  next
    case False
    with dropWhile_Nil_all [of notLineEnd r2] have "dropWhile notLineEnd r2 \<noteq> []" by blast
    with False show ?thesis by (simp del: dropWhile_eq_Nil_conv)
  qed
  finally show ?thesis .
qed

lemma env_tail_run:
  "rx_run False s (Seq (Lit CHR ''='') (Seq (Grp 2 (Star Dot)) Eol)) (r, cs) =
     (if r \<noteq> [] \<and> hd r = CHR ''='' \<and> list_all notLineEnd (tl r)
      then [([], (2, tl r) # cs)] else [])"
proof (cases r)
  case Nil
  then show ?thesis by simp
next
  case (Cons e r2)
  have "rx_run False s (Seq (Lit CHR ''='') (Seq (Grp 2 (Star Dot)) Eol)) (e # r2, cs) =
      concat (map (rx_run False s (Seq (Grp 2 (Star Dot)) Eol))
                  (rx_run False s (Lit CHR ''='') (e # r2, cs)))"
    by (rule rx_run.simps(9))
  also have "\<dots> = (if e = CHR ''='' then rx_run False s (Seq (Grp 2 (Star Dot)) Eol) (r2, cs) else [])"
    by (simp add: canon_def del: rx_run.simps(9))
  finally show ?thesis using Cons by (simp add: env_value_run del: rx_run.simps)
qed


lemma env_line_run:
  "rx_run False s env_line_rx (t, []) =
     (if length t = length s \<and> takeWhile notEq t \<noteq> [] \<and> dropWhile notEq t \<noteq> []
         \<and> list_all notLineEnd (tl (dropWhile notEq t))
      then [([], [(2, tl (dropWhile notEq t)), (1, takeWhile notEq t)])]
      else [])"
proof -
  let ?B = "Seq (Lit CHR ''='') (Seq (Grp 2 (Star Dot)) Eol)"
  let ?X = "Seq (Grp 1 (Plus (NCls ''=''))) ?B"
  have stop: "\<And>d r' cs'. notEq d \<Longrightarrow> rx_run False s ?B (d # r', cs') = []"
    by (simp add: env_tail_run notEq_def del: rx_run.simps)
  have X: "rx_run False s ?X (t, []) =
      (if takeWhile notEq t = [] then []
       else rx_run False s ?B (dropWhile notEq t, [(1, takeWhile notEq t)]))"
    by (rule rx_run_Grp_Plus_then [OF isSingle_notEq stop])
  have hd: "dropWhile notEq t \<noteq> [] \<Longrightarrow> hd (dropWhile notEq t) = CHR ''=''"
    using hd_dropWhile [of notEq t] by (simp add: notEq_def)
  define L where "L = rx_run False s env_line_rx (t, [])"
  have "L = concat (map (rx_run False s ?X) (rx_run False s Bol (t, [])))"
    unfolding L_def env_line_rx_def Seqs.simps by (rule rx_run.simps(9))
  also have "\<dots> = (if length t = length s then rx_run False s ?X (t, []) else [])"
    by (simp del: rx_run.simps(9))
  also have "\<dots> = (if length t = length s then
        (if takeWhile notEq t = [] then []
         else (if dropWhile notEq t \<noteq> [] \<and> hd (dropWhile notEq t) = CHR ''='' \<and>
                  list_all notLineEnd (tl (dropWhile notEq t))
               then [([], [(2, tl (dropWhile notEq t)), (1, takeWhile notEq t)])] else []))
      else [])"
    by (simp only: X env_tail_run)
  finally have "L = (if length t = length s then
        (if takeWhile notEq t = [] then []
         else (if dropWhile notEq t \<noteq> [] \<and> hd (dropWhile notEq t) = CHR ''='' \<and>
                  list_all notLineEnd (tl (dropWhile notEq t))
               then [([], [(2, tl (dropWhile notEq t)), (1, takeWhile notEq t)])] else []))
      else [])" .
  with hd have "L = (if length t = length s \<and> takeWhile notEq t \<noteq> [] \<and> dropWhile notEq t \<noteq> []
         \<and> list_all notLineEnd (tl (dropWhile notEq t))
      then [([], [(2, tl (dropWhile notEq t)), (1, takeWhile notEq t)])]
      else [])"
    by (cases "dropWhile notEq t = []")
       (simp_all del: dropWhile_eq_Nil_conv takeWhile_eq_Nil_iff)
  then show ?thesis by (simp only: L_def)
qed

lemma env_line_later: "length t < length s \<Longrightarrow> rx_search False s env_line_rx t = None"
proof (induction t)
  case Nil
  then show ?case by (simp add: env_line_run del: rx_run.simps)
next
  case (Cons c t)
  then show ?case by (simp add: env_line_run del: rx_run.simps)
qed

lemma env_line_groups: "rx_groups env_line_rx = 2"
  by (simp add: env_line_rx_def Plus_def)

lemma env_line_match:
  assumes "s \<noteq> []"
  shows "rx_match False env_line_rx s =
     (if takeWhile notEq s \<noteq> [] \<and> dropWhile notEq s \<noteq> []
         \<and> list_all notLineEnd (tl (dropWhile notEq s))
      then Some \<lparr>m_index = 0,
                 m_arr = [Some s, Some (takeWhile notEq s), Some (tl (dropWhile notEq s))]\<rparr>
      else None)"
proof -
  from assms obtain c t where s: "s = c # t" by (cases s) auto
  have later: "rx_search False s env_line_rx t = None"
    by (rule env_line_later) (simp add: s)
  have up: "[Suc 0..<3] = [Suc 0, 2]" by code_simp
  show ?thesis
  proof (cases "takeWhile notEq s \<noteq> [] \<and> dropWhile notEq s \<noteq> []
         \<and> list_all notLineEnd (tl (dropWhile notEq s))")
    case True
    then have "rx_run False s env_line_rx (c # t, []) =
        [([], [(2, tl (dropWhile notEq s)), (1, takeWhile notEq s)])]"
      using env_line_run [of s s] by (simp add: s)
    then have "rx_search False s env_line_rx s =
        Some (s, [], [(2, tl (dropWhile notEq s)), (1, takeWhile notEq s)])"
      by (simp add: s)
    with True show ?thesis
      by (simp add: rx_match_def mkMatch_def env_line_groups up)
  next
    case False
    then have "rx_run False s env_line_rx (c # t, []) = []"
      using env_line_run [of s s] by (auto simp: s)
    with later have "rx_search False s env_line_rx s = None"
      by (simp add: s)
    with False show ?thesis by (simp add: rx_match_def)
  qed
qed

lemma parseEnvLoop_step:
  "parseEnvLoop vars (l # ls) = parseEnvLoop (envStep vars l) ls"
proof (cases "trim l = [] \<or> startsWith (trim l) ''#''")
  case True
  then show ?thesis by (auto simp: envStep_def envLine_def Let_def)
next
  case False
  then have ne: "trim l \<noteq> []" by simp
  show ?thesis
  proof (cases "takeWhile notEq (trim l) \<noteq> [] \<and> dropWhile notEq (trim l) \<noteq> []
         \<and> list_all notLineEnd (tl (dropWhile notEq (trim l)))")
    case True
    with False show ?thesis
      by (auto simp: envStep_def envLine_def Let_def env_line_match [OF ne] grp_def)
  next
    case False
    with \<open>\<not> (trim l = [] \<or> startsWith (trim l) ''#'')\<close> show ?thesis
      by (auto simp: envStep_def envLine_def Let_def env_line_match [OF ne])
  qed
qed

lemma parseEnvLoop_fold: "parseEnvLoop vars ls = Some (foldl envStep vars ls)"
proof (induction ls arbitrary: vars)
  case Nil
  show ?case by simp
next
  case (Cons l ls)
  show ?case by (simp only: parseEnvLoop_step Cons.IH foldl_Cons)
qed


lemma envStep_skip:
  "trim l = [] \<or> startsWith (trim l) ''#'' \<Longrightarrow> envStep vars l = vars"
  by (auto simp: envStep_def envLine_def Let_def)

lemma envStep_no_eq: "CHR ''='' \<notin> set (trim l) \<Longrightarrow> envStep vars l = vars"
proof -
  assume "CHR ''='' \<notin> set (trim l)"
  then have "dropWhile notEq (trim l) = []" by (auto simp: notEq_def)
  then show ?thesis by (simp add: envStep_def envLine_def Let_def del: dropWhile_eq_Nil_conv)
qed

lemma envStep_binding:
  assumes "trim l = k @ ''='' @ v" and "k \<noteq> []" and "CHR ''='' \<notin> set k"
    and "\<not> startsWith k ''#''" and "list_all notLineEnd v"
  shows "envStep vars l = setProperty vars (trim k) (stripQuotes (trim v))"
proof -
  from assms(3) have all: "\<forall>c\<in>set k. notEq c" by (auto simp: notEq_def)
  have stop: "''='' @ v = [] \<or> (\<exists>e R'. ''='' @ v = e # R' \<and> \<not> notEq e)"
    by (simp add: notEq_def)
  from takeWhile_run [OF all stop]
  have tk: "takeWhile notEq (k @ CHR ''='' # v) = k"
    and dr: "dropWhile notEq (k @ CHR ''='' # v) = CHR ''='' # v"
    by simp_all
  from assms(2,4) have "\<not> startsWith (k @ ''='' @ v) ''#''"
    by (cases k) (simp_all add: startsWith_def)
  with assms show ?thesis
    by (simp add: envStep_def envLine_def Let_def tk dr)
qed

lemma stripQuotes_quoted: "q = dq \<or> q = sq \<Longrightarrow> stripQuotes (q # w @ [q]) = w"
  by (auto simp: stripQuotes_def startsWith_def endsWith_def slice1m1_def)

lemma stripQuotes_single: "q = dq \<or> q = sq \<Longrightarrow> stripQuotes [q] = []"
  by (auto simp: stripQuotes_def startsWith_def endsWith_def slice1m1_def)

lemma stripQuotes_other:
  "\<not> (startsWith v [dq] \<and> endsWith v [dq]) \<Longrightarrow> \<not> (startsWith v [sq] \<and> endsWith v [sq]) \<Longrightarrow>
     stripQuotes v = v"
  by (auto simp: stripQuotes_def)

lemma setProperty_other: "key \<noteq> ''__proto__'' \<Longrightarrow> setProperty obj key val = obj(key \<mapsto> val)"
  by (simp add: setProperty_def)

lemma setProperty_proto: "obj ''__proto__'' = None \<Longrightarrow> setProperty obj ''__proto__'' val = obj"
  by (simp add: setProperty_def)

lemma setProperty_keeps:
  "obj ''__proto__'' = None \<Longrightarrow> (setProperty obj key val) ''__proto__'' = None"
  by (simp add: setProperty_def)

lemma foldl_envStep_proto:
  "vars ''__proto__'' = None \<Longrightarrow> (foldl envStep vars ls) ''__proto__'' = None"
proof (induction ls arbitrary: vars)
  case Nil
  then show ?case by simp
next
  case (Cons l ls)
  from Cons.prems have "(envStep vars l) ''__proto__'' = None"
    by (cases "envLine l") (auto simp: envStep_def setProperty_keeps)
  with Cons.IH [of "envStep vars l"] show ?case by simp
qed

text \<open>
  The reader splits the content at the newlines and folds the lines into the object of
  variables: a line whose trimmed form is empty or starts with \<^verbatim>\<open>#\<close> changes nothing, nor
  does a line without \<^verbatim>\<open>=\<close>; a line whose trimmed form is a key without \<^verbatim>\<open>=\<close>, an \<^verbatim>\<open>=\<close> and
  a value assigns to the trimmed key the trimmed value, stripped of its first and last
  character when it starts and ends with the same quote and left as it is otherwise.
  (A value that is one quote character alone starts and ends with it and becomes empty.)
  The assignment makes a binding for every key but \<^verbatim>\<open>__proto__\<close>.
\<close>

lemma env_file_reading:
  "parseEnvFile content = Some (foldl envStep Map.empty (split CHR 0x0A content)) \<and>
   (\<forall>vars l. trim l = [] \<or> startsWith (trim l) ''#'' \<longrightarrow> envStep vars l = vars) \<and>
   (\<forall>vars l. CHR ''='' \<notin> set (trim l) \<longrightarrow> envStep vars l = vars) \<and>
   (\<forall>vars l k v. trim l = k @ ''='' @ v \<and> k \<noteq> [] \<and> CHR ''='' \<notin> set k \<and>
      \<not> startsWith k ''#'' \<and> list_all notLineEnd v \<longrightarrow>
      envStep vars l = setProperty vars (trim k) (stripQuotes (trim v))) \<and>
   (\<forall>vars k v. k \<noteq> ''__proto__'' \<longrightarrow> setProperty vars k v = vars(k \<mapsto> v)) \<and>
   (\<forall>q w. q = dq \<or> q = sq \<longrightarrow> stripQuotes (q # w @ [q]) = w) \<and>
   (\<forall>q. q = dq \<or> q = sq \<longrightarrow> stripQuotes [q] = []) \<and>
   (\<forall>v. \<not> (startsWith v [dq] \<and> endsWith v [dq]) \<and> \<not> (startsWith v [sq] \<and> endsWith v [sq]) \<longrightarrow>
      stripQuotes v = v)"
  by (simp add: parseEnvFile_def parseEnvLoop_fold envStep_skip envStep_no_eq envStep_binding
        setProperty_other stripQuotes_quoted stripQuotes_single stripQuotes_other
        del: split.simps)

text \<open>
  A file with a comment, an empty line, the line \<^verbatim>\<open>KEY="value with spaces"\<close>, a line with
  single quotes and spaces around the \<^verbatim>\<open>=\<close>, a line without \<^verbatim>\<open>=\<close> and a value with quotes
  that do not agree.
\<close>

definition env_example :: string where
  "env_example = ''# comment'' @ [CHR 0x0A] @ [CHR 0x0A]
     @ ''KEY='' @ [dq] @ ''value with spaces'' @ [dq] @ [CHR 0x0A]
     @ ''  B = '' @ [sq] @ ''x'' @ [sq] @ ''  '' @ [CHR 0x0A]
     @ ''no binding here'' @ [CHR 0x0A]
     @ ''C='' @ [dq] @ ''mixed'' @ [sq]"

lemma env_file_reading_example:
  "map_option (\<lambda>vars. (vars ''KEY'', vars ''B'', vars ''C'', vars ''# comment'', vars ''no binding here''))
       (parseEnvFile env_example) =
     Some (Some ''value with spaces'', Some ''x'', Some ([dq] @ ''mixed'' @ [sq]), None, None) \<and>
   stripQuotes ([dq] @ ''value with spaces'' @ [dq]) = ''value with spaces''"
proof -
  from env_file_reading [of env_example]
  have p: "parseEnvFile env_example = Some (foldl envStep Map.empty (split CHR 0x0A env_example))"
    and q: "stripQuotes (dq # ''value with spaces'' @ [dq]) = ''value with spaces''"
    by blast+
  have v: "foldl envStep Map.empty (split CHR 0x0A env_example) ''KEY'' = Some ''value with spaces''"
    "foldl envStep Map.empty (split CHR 0x0A env_example) ''B'' = Some ''x''"
    "foldl envStep Map.empty (split CHR 0x0A env_example) ''C'' = Some ([dq] @ ''mixed'' @ [sq])"
    "foldl envStep Map.empty (split CHR 0x0A env_example) ''# comment'' = None"
    "foldl envStep Map.empty (split CHR 0x0A env_example) ''no binding here'' = None"
    by code_simp+
  from p q v show ?thesis by simp
qed

text \<open>The no-break space is white space for \<^verbatim>\<open>trim\<close>: \<^verbatim>\<open>KEY=\<close>, U+00A0, \<^verbatim>\<open>x\<close>, U+00A0.\<close>

lemma env_no_break_space:
  "trim ([CHR 0xA0] @ ''x'' @ [CHR 0xA0]) = ''x''"
  "foldl envStep Map.empty (split CHR 0x0A (''KEY='' @ [CHR 0xA0] @ ''x'' @ [CHR 0xA0])) ''KEY'' =
     Some ''x''"
  by code_simp+

text \<open>
  C8. The line \<^verbatim>\<open>__proto__=x\<close> is not a comment and matches key=value, and the reader makes
  no binding from it: the assignment \<^verbatim>\<open>variables[key] = value\<close> with the key \<^verbatim>\<open>__proto__\<close>
  runs the setter inherited from \<^verbatim>\<open>Object.prototype\<close>, which ignores a string. No content
  makes the reader return an object with the own key \<^verbatim>\<open>__proto__\<close>; the lines around such
  a line are read as usual.
\<close>

theorem env_proto_line:
  "envLine ''__proto__=x'' = Some (''__proto__'', ''x'') \<and>
   map_option (\<lambda>vars. vars ''__proto__'') (parseEnvFile ''__proto__=x'') = Some None \<and>
   map_option (\<lambda>vars. (vars ''A'', vars ''__proto__'', vars ''B''))
       (parseEnvFile (''A=1'' @ [CHR 0x0A] @ ''__proto__=x'' @ [CHR 0x0A] @ ''B=2'')) =
     Some (Some ''1'', None, Some ''2'') \<and>
   map_option (\<lambda>vars. vars ''KEY'') (parseEnvFile ''KEY=x'') = Some (Some ''x'') \<and>
   (\<forall>content. \<exists>vars. parseEnvFile content = Some vars \<and> vars ''__proto__'' = None)"
proof -
  have l: "envLine ''__proto__=x'' = Some (''__proto__'', ''x'')"
    by code_simp
  have v: "foldl envStep Map.empty (split CHR 0x0A ''__proto__=x'') ''__proto__'' = None"
    "foldl envStep Map.empty
       (split CHR 0x0A (''A=1'' @ [CHR 0x0A] @ ''__proto__=x'' @ [CHR 0x0A] @ ''B=2'')) ''A'' = Some ''1''"
    "foldl envStep Map.empty
       (split CHR 0x0A (''A=1'' @ [CHR 0x0A] @ ''__proto__=x'' @ [CHR 0x0A] @ ''B=2'')) ''__proto__'' = None"
    "foldl envStep Map.empty
       (split CHR 0x0A (''A=1'' @ [CHR 0x0A] @ ''__proto__=x'' @ [CHR 0x0A] @ ''B=2'')) ''B'' = Some ''2''"
    "foldl envStep Map.empty (split CHR 0x0A ''KEY=x'') ''KEY'' = Some ''x''"
    by code_simp+
  have all: "\<exists>vars. parseEnvFile content = Some vars \<and> vars ''__proto__'' = None" for content
    by (simp add: parseEnvFile_def parseEnvLoop_fold foldl_envStep_proto del: split.simps)
  from l v all show ?thesis
    by (simp add: parseEnvFile_def parseEnvLoop_fold del: split.simps)
qed

section \<open>Properties of the interpolation\<close>

text \<open>
  The interpolation as a scan of the text. A placeholder starts at a position of the
  text where \<^verbatim>\<open>{{\<close> or \<^verbatim>\<open>${\<close> stands, followed by a name, the longest run of characters
  other than \<^verbatim>\<open>}\<close>, not empty, followed by \<^verbatim>\<open>}}\<close> or by \<^verbatim>\<open>}\<close>. The text is read from the
  left; a placeholder is replaced by the value of its name, trimmed, in the overrides,
  else in the active environment, else by the text of the member of that name that the
  merged object inherits from \<^verbatim>\<open>Object.prototype\<close>, and is left as it stands if there is
  none of the three; reading goes on after the placeholder.
\<close>

definition notRBrace :: "char \<Rightarrow> bool" where
  "notRBrace d = (d \<noteq> CHR ''}'')"

fun placeholderAt :: "string \<Rightarrow> (string \<times> string) option" where
  "placeholderAt (c1 # c2 # t) =
     (if c2 = CHR ''{'' \<and> (c1 = CHR ''{'' \<or> c1 = CHR ''$'') \<and> takeWhile notRBrace t \<noteq> [] then
        (case dropWhile notRBrace t of
           [] \<Rightarrow> None
         | e # r \<Rightarrow>
             if c1 = CHR ''$'' then Some (takeWhile notRBrace t, r)
             else (case r of
                     [] \<Rightarrow> None
                   | e2 # r2 \<Rightarrow> if e2 = CHR ''}'' then Some (takeWhile notRBrace t, r2) else None))
      else None)"
| "placeholderAt _ = None"

definition resolve ::
  "(string \<rightharpoonup> string) \<Rightarrow> (string \<rightharpoonup> string) \<Rightarrow> string \<Rightarrow> string \<Rightarrow> string" where
  "resolve overrides env raw n =
     (case overrides (trim n) of
        Some v \<Rightarrow> v
      | None \<Rightarrow>
          (case env (trim n) of
             Some v \<Rightarrow> v
           | None \<Rightarrow> (case map_of objectPrototype (trim n) of Some v \<Rightarrow> v | None \<Rightarrow> raw)))"

lemma placeholderAt_length:
  "placeholderAt (c # t) = Some (n, rest) \<Longrightarrow> length rest < length t"
proof (cases t)
  case Nil
  then show "placeholderAt (c # t) = Some (n, rest) \<Longrightarrow> length rest < length t" by simp
next
  case (Cons c2 u)
  assume a: "placeholderAt (c # t) = Some (n, rest)"
  have le: "length (dropWhile notRBrace u) \<le> length u" by (rule length_dropWhile_le)
  from a Cons obtain e r where d: "dropWhile notRBrace u = e # r"
    and r: "rest = r \<or> (\<exists>e2. r = e2 # rest)"
    by (auto split: if_splits list.splits)
  from le d have "length r < length u" by simp
  with r Cons show "length rest < length t" by auto
qed

function expand ::
  "(string \<rightharpoonup> string) \<Rightarrow> (string \<rightharpoonup> string) \<Rightarrow> string \<Rightarrow> string" where
  "expand overrides env [] = []"
| "expand overrides env (c # t) =
     (case placeholderAt (c # t) of
        None \<Rightarrow> c # expand overrides env t
      | Some (n, rest) \<Rightarrow>
          resolve overrides env (take (length (c # t) - length rest) (c # t)) n
            @ expand overrides env rest)"
  by pat_completeness auto
termination
  by (relation "measure (\<lambda>(overrides, env, inp). length inp)")
     (auto dest: placeholderAt_length)

declare expand.simps [simp del]

definition activeVariables :: "('n, string \<rightharpoonup> string) globalState \<Rightarrow> (string \<rightharpoonup> string)" where
  "activeVariables st =
     (case find isActive (live st) of None \<Rightarrow> Map.empty | Some env \<Rightarrow> variables env)"

lemma dropWhile_Cons_not: "dropWhile P xs = c # r \<Longrightarrow> \<not> P c"
  by (metis hd_dropWhile list.sel(1) list.distinct(1))

lemma isSingle_notRBrace: "isSingle False s (NCls ''}'') notRBrace"
  by (auto simp: isSingle_def notRBrace_def canon_def split: list.splits)

lemma two_lits:
  "rx_run False s (Seq (Lit a) (Lit b)) (r, cs) =
     (case r of
        c1 # c2 # t \<Rightarrow> if c1 = a \<and> c2 = b then [(t, cs)] else []
      | _ \<Rightarrow> [])"
  by (auto simp: canon_def split: list.splits)

lemma curly_run:
  "rx_run False s (Seq (Grp 1 (Plus (NCls ''}''))) (Seq (Lit CHR ''}'') (Lit CHR ''}''))) (t, []) =
     (if takeWhile notRBrace t = [] then []
      else (case dropWhile notRBrace t of
              c1 # c2 # r2 \<Rightarrow> if c2 = CHR ''}'' then [(r2, [(1, takeWhile notRBrace t)])] else []
            | _ \<Rightarrow> []))"
proof -
  let ?b = "Seq (Lit CHR ''}'') (Lit CHR ''}'')"
  have stop: "\<And>d r' cs'. notRBrace d \<Longrightarrow> rx_run False s ?b (d # r', cs') = []"
    by (auto simp: two_lits notRBrace_def split: list.splits simp del: rx_run.simps)
  have hd: "dropWhile notRBrace t = c1 # r \<Longrightarrow> c1 = CHR ''}''" for c1 r
    using dropWhile_Cons_not [of notRBrace t c1 r] by (simp add: notRBrace_def)
  have "rx_run False s (Seq (Grp 1 (Plus (NCls ''}''))) ?b) (t, []) =
      (if takeWhile notRBrace t = [] then []
       else rx_run False s ?b (dropWhile notRBrace t, [(1, takeWhile notRBrace t)]))"
    by (rule rx_run_Grp_Plus_then [OF isSingle_notRBrace stop])
  also have "rx_run False s ?b (dropWhile notRBrace t, [(1, takeWhile notRBrace t)]) =
      (case dropWhile notRBrace t of
              c1 # c2 # r2 \<Rightarrow> if c2 = CHR ''}'' then [(r2, [(1, takeWhile notRBrace t)])] else []
            | _ \<Rightarrow> [])"
  proof (cases "dropWhile notRBrace t")
    case Nil
    show ?thesis unfolding Nil by (simp add: two_lits del: rx_run.simps)
  next
    case (Cons c1 r)
    from hd [OF Cons] show ?thesis unfolding Cons
      by (cases r) (simp_all add: two_lits del: rx_run.simps)
  qed
  finally show ?thesis .
qed

lemma dollar_run:
  "rx_run False s (Seq (Grp 2 (Plus (NCls ''}''))) (Lit CHR ''}'')) (t, []) =
     (if takeWhile notRBrace t = [] then []
      else (case dropWhile notRBrace t of
              c1 # r \<Rightarrow> [(r, [(2, takeWhile notRBrace t)])]
            | _ \<Rightarrow> []))"
proof -
  let ?b = "Lit CHR ''}''"
  have stop: "\<And>d r' cs'. notRBrace d \<Longrightarrow> rx_run False s ?b (d # r', cs') = []"
    by (auto simp: notRBrace_def canon_def)
  have hd: "dropWhile notRBrace t = c1 # r \<Longrightarrow> c1 = CHR ''}''" for c1 r
    using dropWhile_Cons_not [of notRBrace t c1 r] by (simp add: notRBrace_def)
  have "rx_run False s (Seq (Grp 2 (Plus (NCls ''}''))) ?b) (t, []) =
      (if takeWhile notRBrace t = [] then []
       else rx_run False s ?b (dropWhile notRBrace t, [(2, takeWhile notRBrace t)]))"
    by (rule rx_run_Grp_Plus_then [OF isSingle_notRBrace stop])
  also have "rx_run False s ?b (dropWhile notRBrace t, [(2, takeWhile notRBrace t)]) =
      (case dropWhile notRBrace t of
              c1 # r \<Rightarrow> [(r, [(2, takeWhile notRBrace t)])]
            | _ \<Rightarrow> [])"
  proof (cases "dropWhile notRBrace t")
    case Nil
    show ?thesis unfolding Nil by simp
  next
    case (Cons c1 r)
    from hd [OF Cons] show ?thesis unfolding Cons by (simp add: canon_def)
  qed
  finally show ?thesis .
qed


lemma placeholder_run:
  "rx_run False s placeholder_rx (c # t, []) =
     (case placeholderAt (c # t) of
        None \<Rightarrow> []
      | Some (n, rest) \<Rightarrow> [(rest, [(if c = CHR ''{'' then 1 else 2, n)])])"
proof -
  let ?X1 = "Seq (Grp 1 (Plus (NCls ''}''))) (Seq (Lit CHR ''}'') (Lit CHR ''}''))"
  let ?X2 = "Seq (Grp 2 (Plus (NCls ''}''))) (Lit CHR ''}'')"
  let ?L1 = "Seq (Lit CHR ''{'') (Lit CHR ''{'')"
  let ?L2 = "Seq (Lit CHR ''$'') (Lit CHR ''{'')"
  have rx: "placeholder_rx = Alt (Seq ?L1 ?X1) (Seq ?L2 ?X2)"
    by (simp add: placeholder_rx_def)
  have run: "rx_run False s placeholder_rx (c # t, []) =
      concat (map (rx_run False s ?X1) (rx_run False s ?L1 (c # t, []))) @
      concat (map (rx_run False s ?X2) (rx_run False s ?L2 (c # t, [])))"
    unfolding rx by (simp only: rx_run.simps(10) rx_run.simps(9) [of False s ?L1 ?X1]
        rx_run.simps(9) [of False s ?L2 ?X2])
  show ?thesis
  proof (cases t)
    case Nil
    from run have "rx_run False s placeholder_rx (c # t, []) = []"
      by (simp add: Nil two_lits del: rx_run.simps)
    then show ?thesis by (simp add: Nil)
  next
    case (Cons c2 u)
    consider (curly) "c = CHR ''{''" "c2 = CHR ''{''"
      | (dollar) "c = CHR ''$''" "c2 = CHR ''{''"
      | (neither) "\<not> (c2 = CHR ''{'' \<and> (c = CHR ''{'' \<or> c = CHR ''$''))"
      by blast
    then show ?thesis
    proof cases
      case curly
      from run curly have "rx_run False s placeholder_rx (c # t, []) = rx_run False s ?X1 (u, [])"
        by (simp add: Cons two_lits del: rx_run.simps)
      also note curly_run
      finally show ?thesis using curly Cons
        by (cases "dropWhile notRBrace u")
           (auto split: list.splits simp del: dropWhile_eq_Nil_conv takeWhile_eq_Nil_iff)
    next
      case dollar
      from run dollar have "rx_run False s placeholder_rx (c # t, []) = rx_run False s ?X2 (u, [])"
        by (simp add: Cons two_lits del: rx_run.simps)
      also note dollar_run
      finally show ?thesis using dollar Cons
        by (cases "dropWhile notRBrace u")
           (auto split: list.splits simp del: dropWhile_eq_Nil_conv takeWhile_eq_Nil_iff)
    next
      case neither
      from run neither have "rx_run False s placeholder_rx (c # t, []) = []"
        by (auto simp: Cons two_lits simp del: rx_run.simps)
      with neither Cons show ?thesis by auto
    qed
  qed
qed

lemma placeholder_run_Nil: "rx_run False s placeholder_rx ([], []) = []"
  by (simp add: placeholder_rx_def)

lemma placeholder_groups: "rx_groups placeholder_rx = 2"
  by (simp add: placeholder_rx_def Plus_def)

lemma placeholderAt_name: "placeholderAt inp = Some (n, rest) \<Longrightarrow> n \<noteq> []"
  by (cases inp rule: placeholderAt.cases) (auto split: if_splits list.splits)

lemma substitute_placeholder:
  assumes "n \<noteq> []" and "g = 1 \<or> g = 2"
  shows "substitute vars (mkMatch s placeholder_rx (st, rest, [(g, n)])) =
           Some (case getProperty vars (trim n) of
                   Some v \<Rightarrow> v
                 | None \<Rightarrow> take (length st - length rest) st)"
proof -
  have up: "[Suc 0..<3] = [Suc 0, 2]" by code_simp
  from assms show ?thesis
    by (auto simp: substitute_def mkMatch_def placeholder_groups up grp_def orElseOpt_def
          split: option.splits)
qed

lemma resolve_map_add:
  "resolve overrides env raw n =
     (case getProperty (env ++ overrides) (trim n) of Some v \<Rightarrow> v | None \<Rightarrow> raw)"
  by (simp add: resolve_def getProperty_def map_add_def split: option.splits)

lemma replace_expand:
  "rx_replace_g False s placeholder_rx (substitute (env ++ overrides)) rest =
     Some (expand overrides env rest)"
proof (induction overrides env rest rule: expand.induct)
  case (1 overrides env)
  show ?case by (simp add: rx_replace_g_Nil placeholder_run_Nil expand.simps)
next
  case (2 overrides env c t)
  show ?case
  proof (cases "placeholderAt (c # t)")
    case None
    then have "rx_run False s placeholder_rx (c # t, []) = []"
      by (simp add: placeholder_run)
    from rx_replace_g_miss [OF this] 2(1) [OF None] None show ?thesis
      by (simp add: expand.simps(2) del: placeholderAt.simps)
  next
    case (Some p)
    obtain n rest where p: "p = (n, rest)" by (cases p)
    let ?g = "if c = CHR ''{'' then 1 else 2 :: nat"
    from Some p have run: "rx_run False s placeholder_rx (c # t, []) = (rest, [(?g, n)]) # []"
      by (simp add: placeholder_run)
    from placeholderAt_length [of c t n rest] Some p have len: "length rest \<le> length t" by simp
    from placeholderAt_name [of "c # t" n rest] Some p have n: "n \<noteq> []" by simp
    have g: "?g = 1 \<or> ?g = 2" by simp
    note sub = substitute_placeholder [OF n g, of "env ++ overrides" s "c # t" rest]
    from 2(2) [OF Some p [symmetric]]
    have ih: "rx_replace_g False s placeholder_rx (substitute (env ++ overrides)) rest =
        Some (expand overrides env rest)" .
    show ?thesis
      unfolding rx_replace_g_hit [OF run len] sub ih
      using Some p
      by (auto simp: expand.simps(2) resolve_def getProperty_def map_add_def
            split: option.splits simp del: placeholderAt.simps)
  qed
qed


text \<open>Literal text in which no placeholder can start, whatever follows it.\<close>

fun quiet :: "string \<Rightarrow> bool" where
  "quiet [] = True"
| "quiet [c] = (c \<noteq> CHR ''{'' \<and> c \<noteq> CHR ''$'')"
| "quiet (c1 # c2 # t) = (\<not> ((c1 = CHR ''{'' \<or> c1 = CHR ''$'') \<and> c2 = CHR ''{'') \<and> quiet (c2 # t))"

lemma expand_quiet: "quiet pre \<Longrightarrow> expand overrides env (pre @ post) = pre @ expand overrides env post"
proof (induction pre rule: quiet.induct)
  case 1
  show ?case by simp
next
  case (2 c)
  then have "placeholderAt (c # post) = None" by (cases post) auto
  then show ?case by (simp add: expand.simps(2) del: placeholderAt.simps)
next
  case (3 c1 c2 t)
  then have "placeholderAt (c1 # c2 # t @ post) = None" by auto
  with 3 show ?case by (simp add: expand.simps(2) del: placeholderAt.simps)
qed

lemma expand_curly:
  assumes "n \<noteq> []" and "CHR ''}'' \<notin> set n"
  shows "expand overrides env (''{{'' @ n @ ''}}'' @ post) =
           resolve overrides env (''{{'' @ n @ ''}}'') n @ expand overrides env post"
proof -
  from assms(2) have all: "\<forall>c\<in>set n. notRBrace c" by (auto simp: notRBrace_def)
  have stop: "''}}'' @ post = [] \<or> (\<exists>e R'. ''}}'' @ post = e # R' \<and> \<not> notRBrace e)"
    by (simp add: notRBrace_def)
  from takeWhile_run [OF all stop]
  have tk: "takeWhile notRBrace (n @ CHR ''}'' # CHR ''}'' # post) = n"
    and dr: "dropWhile notRBrace (n @ CHR ''}'' # CHR ''}'' # post) = CHR ''}'' # CHR ''}'' # post"
    by simp_all
  from assms(1) have at: "placeholderAt (CHR ''{'' # CHR ''{'' # n @ CHR ''}'' # CHR ''}'' # post) =
      Some (n, post)"
    by (simp add: tk dr)
  have raw: "take (4 + length n) (CHR ''{'' # CHR ''{'' # n @ CHR ''}'' # CHR ''}'' # post) =
      CHR ''{'' # CHR ''{'' # n @ ''}}''"
    by (simp add: numeral_eq_Suc)
  show ?thesis by (simp add: expand.simps(2) at raw del: placeholderAt.simps)
qed

lemma expand_dollar:
  assumes "n \<noteq> []" and "CHR ''}'' \<notin> set n"
  shows "expand overrides env (''${'' @ n @ ''}'' @ post) =
           resolve overrides env (''${'' @ n @ ''}'') n @ expand overrides env post"
proof -
  from assms(2) have all: "\<forall>c\<in>set n. notRBrace c" by (auto simp: notRBrace_def)
  have stop: "''}'' @ post = [] \<or> (\<exists>e R'. ''}'' @ post = e # R' \<and> \<not> notRBrace e)"
    by (simp add: notRBrace_def)
  from takeWhile_run [OF all stop]
  have tk: "takeWhile notRBrace (n @ CHR ''}'' # post) = n"
    and dr: "dropWhile notRBrace (n @ CHR ''}'' # post) = CHR ''}'' # post"
    by simp_all
  from assms(1) have at: "placeholderAt (CHR ''$'' # CHR ''{'' # n @ CHR ''}'' # post) =
      Some (n, post)"
    by (simp add: tk dr)
  have raw: "take (3 + length n) (CHR ''$'' # CHR ''{'' # n @ CHR ''}'' # post) =
      CHR ''$'' # CHR ''{'' # n @ ''}''"
    by (simp add: numeral_eq_Suc)
  show ?thesis by (simp add: expand.simps(2) at raw del: placeholderAt.simps)
qed

text \<open>
  The interpolation never throws and is the expansion of the text with the given
  overrides and the variables of the active environment. Literal text in which no
  placeholder starts is kept; \<^verbatim>\<open>{{name}}\<close> and \<^verbatim>\<open>${name}\<close> are replaced by the value of the
  trimmed name in the overrides when they bind it, else by its value in the active
  environment when that binds it; when neither does, they stay as they are unless the
  trimmed name is a member of \<^verbatim>\<open>Object.prototype\<close>, whose text replaces them then.
\<close>

lemma interpolate_returns:
  "interpolate st input overrides = Some (expand overrides (activeVariables st) input)"
  by (simp add: interpolate_def activeVariables_def Let_def replace_expand)

lemma interpolate_expand:
  "interpolate st input overrides = Some (expand overrides (activeVariables st) input) \<and>
   (\<forall>pre post. quiet pre \<longrightarrow> expand overrides env (pre @ post) = pre @ expand overrides env post) \<and>
   (\<forall>n post. n \<noteq> [] \<and> CHR ''}'' \<notin> set n \<longrightarrow>
      expand overrides env (''{{'' @ n @ ''}}'' @ post) =
        resolve overrides env (''{{'' @ n @ ''}}'') n @ expand overrides env post) \<and>
   (\<forall>n post. n \<noteq> [] \<and> CHR ''}'' \<notin> set n \<longrightarrow>
      expand overrides env (''${'' @ n @ ''}'' @ post) =
        resolve overrides env (''${'' @ n @ ''}'') n @ expand overrides env post) \<and>
   (\<forall>raw n v. overrides (trim n) = Some v \<longrightarrow> resolve overrides env raw n = v) \<and>
   (\<forall>raw n v. overrides (trim n) = None \<and> env (trim n) = Some v \<longrightarrow>
      resolve overrides env raw n = v) \<and>
   (\<forall>raw n. overrides (trim n) = None \<and> env (trim n) = None \<and>
      trim n \<notin> set (map fst objectPrototype) \<longrightarrow> resolve overrides env raw n = raw) \<and>
   (\<forall>raw n v. overrides (trim n) = None \<and> env (trim n) = None \<and>
      map_of objectPrototype (trim n) = Some v \<longrightarrow> resolve overrides env raw n = v)"
proof (intro conjI allI impI)
  show "interpolate st input overrides = Some (expand overrides (activeVariables st) input)"
    by (simp add: interpolate_def activeVariables_def Let_def replace_expand)
next
  fix pre post assume "quiet pre"
  then show "expand overrides env (pre @ post) = pre @ expand overrides env post"
    by (rule expand_quiet)
next
  fix n post assume "n \<noteq> [] \<and> CHR ''}'' \<notin> set n"
  then show "expand overrides env (''{{'' @ n @ ''}}'' @ post) =
        resolve overrides env (''{{'' @ n @ ''}}'') n @ expand overrides env post"
    using expand_curly [of n overrides env post] by blast
next
  fix n post assume "n \<noteq> [] \<and> CHR ''}'' \<notin> set n"
  then show "expand overrides env (''${'' @ n @ ''}'' @ post) =
        resolve overrides env (''${'' @ n @ ''}'') n @ expand overrides env post"
    using expand_dollar [of n overrides env post] by blast
next
  fix raw n
  assume "overrides (trim n) = None \<and> env (trim n) = None \<and>
      trim n \<notin> set (map fst objectPrototype)"
  moreover from this have "map_of objectPrototype (trim n) = None"
    by (simp add: map_of_eq_None_iff)
  ultimately show "resolve overrides env raw n = raw" by (simp add: resolve_def)
qed (simp_all add: resolve_def)

lemma interpolate_expand_example:
  "interpolate store_ab ''{{BASE_URL}}/api'' Map.empty = Some ''http://x/api'' \<and>
   interpolate store_ab ''{{FOO}}'' Map.empty = Some ''{{FOO}}'' \<and>
   interpolate store_ab ''${ BASE_URL }/{{FOO}}'' [''BASE_URL'' \<mapsto> ''http://y''] =
     Some ''http://y/{{FOO}}''"
proof -
  have a: "expand Map.empty (activeVariables store_ab) ''{{BASE_URL}}/api'' = ''http://x/api''"
    "expand Map.empty (activeVariables store_ab) ''{{FOO}}'' = ''{{FOO}}''"
    "expand [''BASE_URL'' \<mapsto> ''http://y''] (activeVariables store_ab) ''${ BASE_URL }/{{FOO}}'' =
       ''http://y/{{FOO}}''"
    by code_simp+
  note run = interpolate_expand [where env = "activeVariables store_ab" and st = store_ab,
      THEN conjunct1]
  from run [of "''{{BASE_URL}}/api''" Map.empty] a(1)
  have i1: "interpolate store_ab ''{{BASE_URL}}/api'' Map.empty = Some ''http://x/api''" by simp
  from run [of "''{{FOO}}''" Map.empty] a(2)
  have i2: "interpolate store_ab ''{{FOO}}'' Map.empty = Some ''{{FOO}}''" by simp
  from run [of "''${ BASE_URL }/{{FOO}}''" "[''BASE_URL'' \<mapsto> ''http://y'']"] a(3)
  have i3: "interpolate store_ab ''${ BASE_URL }/{{FOO}}'' [''BASE_URL'' \<mapsto> ''http://y''] =
     Some ''http://y/{{FOO}}''" by simp
  from i1 i2 i3 show ?thesis by blast
qed

text \<open>
  C2. No override and no variable of the active environment binds the names
  \<^verbatim>\<open>constructor\<close>, \<^verbatim>\<open>toString\<close> and \<^verbatim>\<open>__proto__\<close> here, and their placeholders are not left
  as they are: \<^verbatim>\<open>variables[varName]\<close> finds the members of those names that the merged
  object inherits from \<^verbatim>\<open>Object.prototype\<close>, the \<^verbatim>\<open>??\<close> does not fall back to the match,
  and \<^verbatim>\<open>replace\<close> puts in the text of the member. It is so with and without an active
  environment. A name that is bound, and an unbound name that \<^verbatim>\<open>Object.prototype\<close> does
  not have, are treated as the contract says.
\<close>

theorem interpolate_inherited_name:
  "interpolate (\<lparr>live = [], persisted = []\<rparr> :: (string, string \<rightharpoonup> string) globalState)
       ''GET {{constructor}}'' Map.empty =
     Some ''GET function Object() { [native code] }'' \<and>
   interpolate store_ab ''{{BASE_URL}}/${toString}'' Map.empty =
     Some ''http://x/function toString() { [native code] }'' \<and>
   interpolate store_ab ''{{ __proto__ }}'' Map.empty = Some ''[object Object]'' \<and>
   interpolate store_ab ''{{constructor}}'' [''constructor'' \<mapsto> ''c''] = Some ''c'' \<and>
   interpolate store_ab ''{{FOO}}'' Map.empty = Some ''{{FOO}}'' \<and>
   activeVariables store_ab ''constructor'' = None \<and>
   activeVariables store_ab ''toString'' = None \<and>
   activeVariables store_ab ''__proto__'' = None"
proof -
  have e: "expand Map.empty Map.empty ''GET {{constructor}}'' =
      ''GET function Object() { [native code] }''"
    "expand Map.empty (activeVariables store_ab) ''{{BASE_URL}}/${toString}'' =
      ''http://x/function toString() { [native code] }''"
    "expand Map.empty (activeVariables store_ab) ''{{ __proto__ }}'' = ''[object Object]''"
    "expand [''constructor'' \<mapsto> ''c''] (activeVariables store_ab) ''{{constructor}}'' = ''c''"
    "expand Map.empty (activeVariables store_ab) ''{{FOO}}'' = ''{{FOO}}''"
    by code_simp+
  have v: "activeVariables store_ab ''constructor'' = None"
    "activeVariables store_ab ''toString'' = None"
    "activeVariables store_ab ''__proto__'' = None"
    by code_simp+
  have n: "activeVariables \<lparr>live = [], persisted = []\<rparr> = Map.empty"
    by (simp add: activeVariables_def)
  from e v show ?thesis by (simp add: interpolate_returns n)
qed

section \<open>The scan returns\<close>

text \<open>
  A pattern that can match the empty text; the test is syntactic and errs on the side of
  saying it can.
\<close>

fun nullable :: "rx \<Rightarrow> bool" where
  "nullable (Seq a b) = (nullable a \<and> nullable b)"
| "nullable (Alt a b) = (nullable a \<or> nullable b)"
| "nullable (Grp n a) = nullable a"
| "nullable (Lit c) = False"
| "nullable (Cls xs) = False"
| "nullable (NCls xs) = False"
| "nullable Space = False"
| "nullable Dot = False"
| "nullable _ = True"

lemma rx_run_progress:
  "\<not> nullable r \<Longrightarrow> st' \<in> set (rx_run ic s r st) \<Longrightarrow> length (fst st') < length (fst st)"
proof (induction r arbitrary: st st')
  case (Seq a b)
  from Seq.prems(2) obtain m where m: "m \<in> set (rx_run ic s a st)"
    and st': "st' \<in> set (rx_run ic s b m)" by auto
  from rx_run_length [OF m] rx_run_length [OF st']
  have le: "length (fst m) \<le> length (fst st)" "length (fst st') \<le> length (fst m)" .
  from Seq.prems(1) have "\<not> nullable a \<or> \<not> nullable b" by simp
  then show ?case
  proof
    assume "\<not> nullable a"
    from Seq.IH(1) [OF this m] le show ?thesis by simp
  next
    assume "\<not> nullable b"
    from Seq.IH(2) [OF this st'] le show ?thesis by simp
  qed
next
  case (Alt a b)
  from Alt.prems have "st' \<in> set (rx_run ic s a st) \<or> st' \<in> set (rx_run ic s b st)"
    and "\<not> nullable a" and "\<not> nullable b" by simp_all
  with Alt.IH show ?case by blast
next
  case (Grp n a)
  obtain r cs where st: "st = (r, cs)" by (cases st)
  from Grp.prems st obtain m where m: "m \<in> set (rx_run ic s a (r, cs))" and "fst st' = fst m"
    by (auto split: prod.splits)
  with Grp.IH [of m "(r, cs)"] Grp.prems(1) st show ?case by simp
next
  case (Lit c)
  then show ?case by (cases st) (auto split: list.splits if_splits)
next
  case (Cls xs)
  then show ?case by (cases st) (auto split: list.splits if_splits)
next
  case (NCls xs)
  then show ?case by (cases st) (auto split: list.splits if_splits)
next
  case Space
  then show ?case by (cases st) (auto split: list.splits if_splits)
next
  case Dot
  then show ?case by (cases st) (auto split: list.splits if_splits)
qed simp_all

lemma rx_search_progress:
  assumes "\<not> nullable r" and "rx_search ic s r rest = Some (st, rest', cs)"
  shows "length rest' < length st"
  using assms(2)
proof (induction rest)
  case Nil
  then have "(rest', cs) \<in> set (rx_run ic s r ([], []))" and "st = []"
    by (auto split: list.splits)
  with rx_run_progress [OF assms(1), of "(rest', cs)" ic s "([], [])"] show ?case by simp
next
  case (Cons c t)
  show ?case
  proof (cases "rx_run ic s r (c # t, [])")
    case Nil
    with Cons show ?thesis by simp
  next
    case (Cons x xs)
    with Cons.prems have "(rest', cs) \<in> set (rx_run ic s r (c # t, []))" and "st = c # t"
      by (auto split: prod.splits)
    with rx_run_progress [OF assms(1), of "(rest', cs)" ic s "(c # t, [])"] show ?thesis by simp
  qed
qed

lemma rx_exec_loop_returns:
  assumes "\<not> nullable r"
  shows "\<exists>ms. rx_exec_loop ic s r rest = Some ms"
proof (induction rest rule: length_induct)
  case (1 rest)
  show ?case
  proof (cases "rx_search ic s r rest")
    case None
    then show ?thesis by (subst rx_exec_loop.simps) simp
  next
    case (Some x)
    obtain st rest' cs where x: "x = (st, rest', cs)" by (cases x)
    from rx_search_progress [OF assms] Some x have lt: "length rest' < length st" by simp
    from rx_search_length [of ic s r rest st rest' cs] Some x have "length st \<le> length rest"
      by simp
    with lt 1 obtain ms where "rx_exec_loop ic s r rest' = Some ms" by fastforce
    with Some x lt show ?thesis by (subst rx_exec_loop.simps) simp
  qed
qed

lemma collectAll_returns:
  "(\<And>x. x \<in> set xs \<Longrightarrow> \<exists>ys. f x = Some ys) \<Longrightarrow> \<exists>ys. collectAll f xs = Some ys"
proof (induction xs)
  case Nil
  show ?case by simp
next
  case (Cons x xs)
  from Cons.prems obtain ys where "f x = Some ys" by auto
  moreover from Cons obtain zs where "collectAll f xs = Some zs" by auto
  ultimately show ?case by simp
qed

lemma patterns_not_nullable:
  "map_of patterns fw = Some ps \<Longrightarrow> p \<in> set ps \<Longrightarrow> \<not> nullable p"
proof -
  have "\<forall>(fw, ps)\<in>set patterns. \<forall>p\<in>set ps. \<not> nullable p"
    by (simp add: patterns_def express_1_def express_2_def fastify_1_def fastify_2_def hono_1_def
          nestjs_1_def nestjs_2_def nextjs_1_def nextjs_2_def flask_1_def flask_2_def
          fastapi_1_def django_1_def django_2_def go_1_def go_2_def go_3_def go_4_def
          spring_1_def spring_2_def rust_1_def rust_2_def laravel_1_def laravel_2_def koa_1_def
          verbs5_def verbs6_def verbs7_def VERBS5_def VERBS7_def quoted2_def quoted3_def
          ws_def ws1_def Plus_def)
  moreover assume "map_of patterns fw = Some ps" and "p \<in> set ps"
  moreover from this have "(fw, ps) \<in> set patterns" by (simp add: map_of_SomeD)
  ultimately show "\<not> nullable p" by blast
qed

text \<open>
  No pattern of the table matches the empty text, so the loop over the matches of a
  pattern ends and the scan of a file returns its endpoints; so do the cursor lookup
  and the whole scan.
\<close>

lemma parseFileForEndpoints_returns:
  "\<exists>endpoints. parseFileForEndpoints content filePath = Some endpoints"
proof -
  have pat: "\<exists>ys. scanPattern content filePath ls fw p = Some ys"
    if "map_of patterns fw = Some ps" and "p \<in> set ps" for ls fw ps p
    using rx_exec_loop_returns [OF patterns_not_nullable [OF that], of True content content]
    by (auto simp: scanPattern_def)
  have "\<exists>ys. (case map_of patterns fw of None \<Rightarrow> Some []
          | Some ps \<Rightarrow> collectAll (scanPattern content filePath ls fw) ps) = Some ys" for fw ls
  proof (cases "map_of patterns fw")
    case None
    then show ?thesis by simp
  next
    case (Some ps)
    from collectAll_returns [of ps "scanPattern content filePath ls fw"] pat [OF Some] Some
    show ?thesis by simp
  qed
  then show ?thesis
    unfolding parseFileForEndpoints_def Let_def by (intro collectAll_returns) blast
qed

lemma findEndpointAtPosition_returns:
  "\<exists>found. findEndpointAtPosition content filePath positionLine = Some found"
  using parseFileForEndpoints_returns [of content filePath]
  by (auto simp: findEndpointAtPosition_def)

lemma discoverEndpoints_returns:
  "\<exists>endpoints. discoverEndpoints files nextjsEndpoints = Some endpoints"
proof -
  have "\<exists>ys. collectAll (\<lambda>(f, c). case c of None \<Rightarrow> Some []
            | Some content \<Rightarrow> parseFileForEndpoints content f) files = Some ys"
  proof (rule collectAll_returns)
    fix x assume "x \<in> set files"
    obtain f c where x: "x = (f, c)" by (cases x)
    show "\<exists>ys. (case x of (f, c) \<Rightarrow> case c of None \<Rightarrow> Some []
            | Some content \<Rightarrow> parseFileForEndpoints content f) = Some ys"
      using parseFileForEndpoints_returns [of _ f] by (cases c) (auto simp: x)
  qed
  then show ?thesis by (auto simp: discoverEndpoints_def)
qed

text \<open>No two endpoints of a scan have the same key, hence none the same triple.\<close>

lemma distinct_map_comp: "distinct (map (g \<circ> h) xs) \<Longrightarrow> distinct (map h xs)"
  by (induction xs) auto

lemma discoverEndpoints_distinct:
  "discoverEndpoints files nextjsEndpoints = Some endpoints \<Longrightarrow>
     distinct (map endpointKey endpoints) \<and>
     distinct (map (\<lambda>ep. (method_ep ep, path ep, file_ep ep)) endpoints)"
proof -
  assume "discoverEndpoints files nextjsEndpoints = Some endpoints"
  then obtain cands where "endpoints = dedupFilter {} cands"
    by (auto simp: discoverEndpoints_def deduplicateEndpoints_def)
  then have d: "distinct (map endpointKey endpoints)" by (simp add: dedupFilter_distinct)
  have "endpointKey = (\<lambda>t. fst t @ '':'' @ fst (snd t) @ '':'' @ snd (snd t)) \<circ>
      (\<lambda>ep. (method_ep ep, path ep, file_ep ep))"
    by (auto simp: endpointKey_def fun_eq_iff)
  with d have "distinct (map ((\<lambda>t. fst t @ '':'' @ fst (snd t) @ '':'' @ snd (snd t)) \<circ>
      (\<lambda>ep. (method_ep ep, path ep, file_ep ep))) endpoints)" by simp
  then have "distinct (map (\<lambda>ep. (method_ep ep, path ep, file_ep ep)) endpoints)"
    by (rule distinct_map_comp)
  with d show ?thesis by simp
qed

section \<open>Deduplication is idempotent\<close>

text \<open>
  C7. Deduplicating a deduplicated list, or that list concatenated with itself, gives the
  list back, in the same order, and deduplication keeps the set of keys of its input.
  The scan of a workspace returns, and its result is a function of the files it reads
  (every pattern loop ends with \<^verbatim>\<open>lastIndex\<close> back at 0), so two runs over the same
  files give the same list; that list is a deduplicated one, and deduplicating it
  concatenated with itself gives it back.
\<close>

theorem dedup_idempotent:
  "deduplicateEndpoints (deduplicateEndpoints eps @ deduplicateEndpoints eps) =
     deduplicateEndpoints eps \<and>
   deduplicateEndpoints (deduplicateEndpoints eps) = deduplicateEndpoints eps \<and>
   set (map endpointKey (deduplicateEndpoints eps)) = set (map endpointKey eps) \<and>
   (\<exists>s. discoverEndpoints files nextjsEndpoints = Some s \<and>
        deduplicateEndpoints (s @ s) = s \<and> deduplicateEndpoints s = s)"
proof -
  have twice: "dedupFilter {} (dedupFilter {} xs @ dedupFilter {} xs) = dedupFilter {} xs"
    for xs :: "DiscoveredEndpoint list"
  proof -
    let ?s = "dedupFilter {} xs"
    have "dedupFilter ({} \<union> endpointKey ` set ?s) ?s = []"
      by (rule dedupFilter_seen) simp
    then show ?thesis
      by (simp only: dedupFilter_append dedupFilter_again append_Nil2)
  qed
  obtain s where s: "discoverEndpoints files nextjsEndpoints = Some s"
    using discoverEndpoints_returns by blast
  then obtain cands where c: "s = dedupFilter {} cands"
    by (auto simp: discoverEndpoints_def deduplicateEndpoints_def)
  have "deduplicateEndpoints (s @ s) = s \<and> deduplicateEndpoints s = s"
    unfolding c deduplicateEndpoints_def by (simp only: twice dedupFilter_again)
  with s have run: "\<exists>s. discoverEndpoints files nextjsEndpoints = Some s \<and>
      deduplicateEndpoints (s @ s) = s \<and> deduplicateEndpoints s = s"
    by blast
  have "deduplicateEndpoints (deduplicateEndpoints eps @ deduplicateEndpoints eps) =
     deduplicateEndpoints eps \<and>
   deduplicateEndpoints (deduplicateEndpoints eps) = deduplicateEndpoints eps \<and>
   set (map endpointKey (deduplicateEndpoints eps)) = set (map endpointKey eps)"
    by (simp add: deduplicateEndpoints_def twice dedupFilter_again dedupFilter_keys)
  with run show ?thesis by blast
qed

theorem dedup_idempotent_witness:
  "deduplicateEndpoints [ep_of ''GET'' ''/a'' ''/srv/a.js'', ep_of ''POST'' ''/a'' ''/srv/a.js'',
      ep_of ''GET'' ''/a'' ''/srv/a.js''] =
     [ep_of ''GET'' ''/a'' ''/srv/a.js'', ep_of ''POST'' ''/a'' ''/srv/a.js''] \<and>
   deduplicateEndpoints
     ([ep_of ''GET'' ''/a'' ''/srv/a.js'', ep_of ''POST'' ''/a'' ''/srv/a.js''] @
      [ep_of ''GET'' ''/a'' ''/srv/a.js'', ep_of ''POST'' ''/a'' ''/srv/a.js'']) =
     [ep_of ''GET'' ''/a'' ''/srv/a.js'', ep_of ''POST'' ''/a'' ''/srv/a.js'']"
proof -
  have a: "deduplicateEndpoints [ep_of ''GET'' ''/a'' ''/srv/a.js'',
      ep_of ''POST'' ''/a'' ''/srv/a.js'', ep_of ''GET'' ''/a'' ''/srv/a.js''] =
     [ep_of ''GET'' ''/a'' ''/srv/a.js'', ep_of ''POST'' ''/a'' ''/srv/a.js'']"
    by (simp add: deduplicateEndpoints_def ep_of_def endpointKey_def)
  from dedup_idempotent [where eps = "[ep_of ''GET'' ''/a'' ''/srv/a.js'',
      ep_of ''POST'' ''/a'' ''/srv/a.js'', ep_of ''GET'' ''/a'' ''/srv/a.js'']"
      and files = "[]" and nextjsEndpoints = "[]"]
  show ?thesis unfolding a by simp
qed

section \<open>The key of deduplication\<close>

text \<open>
  A Python file with two Flask routes:
  \<^verbatim>\<open>@app.route('/X:/y', methods=['GET'])\<close> and \<^verbatim>\<open>@app.route('/y', methods=['GET:/X'])\<close>.
\<close>

definition flask_colliding :: string where
  "flask_colliding =
     ''@app.route('' @ [sq] @ ''/X:/y'' @ [sq] @ '', methods=['' @ [sq] @ ''GET'' @ [sq] @ ''])''
     @ [CHR 0x0A] @
     ''@app.route('' @ [sq] @ ''/y'' @ [sq] @ '', methods=['' @ [sq] @ ''GET:/X'' @ [sq] @ ''])''"

definition route_xy :: DiscoveredEndpoint where
  "route_xy = \<lparr>method_ep = ''GET'', path = ''/X:/y'', file_ep = ''/srv/app.py'', line = 0,
     framework = ''flask'', params = None\<rparr>"

definition route_y :: DiscoveredEndpoint where
  "route_y = \<lparr>method_ep = ''GET:/X'', path = ''/y'', file_ep = ''/srv/app.py'', line = 1,
     framework = ''flask'', params = None\<rparr>"

text \<open>
  C3. The key of an endpoint is the text \<^verbatim>\<open>method:path:file\<close>, and two endpoints with
  different (method, path, file) triples can have the same key. The scan of the file
  above finds the two routes, with the triples (GET, /X:/y, file) and (GET:/X, /y, file);
  their keys are the same text, and the result of the discovery has the first endpoint
  only: the second is dropped although it is the first with its triple.
\<close>

theorem dedup_key_collision:
  "parseFileForEndpoints flask_colliding ''/srv/app.py'' = Some [route_xy, route_y] \<and>
   (method_ep route_xy, path route_xy, file_ep route_xy) \<noteq>
     (method_ep route_y, path route_y, file_ep route_y) \<and>
   endpointKey route_xy = ''GET:/X:/y:/srv/app.py'' \<and>
   endpointKey route_y = ''GET:/X:/y:/srv/app.py'' \<and>
   deduplicateEndpoints [route_xy, route_y] = [route_xy] \<and>
   discoverEndpoints [(''/srv/app.py'', Some flask_colliding)] [] = Some [route_xy]"
proof -
  have p: "parseFileForEndpoints flask_colliding ''/srv/app.py'' = Some [route_xy, route_y]"
    by code_simp
  have k: "endpointKey route_xy = ''GET:/X:/y:/srv/app.py''"
    "endpointKey route_y = ''GET:/X:/y:/srv/app.py''"
    by (simp_all add: endpointKey_def route_xy_def route_y_def)
  have t: "(method_ep route_xy, path route_xy, file_ep route_xy) \<noteq>
     (method_ep route_y, path route_y, file_ep route_y)"
    by (simp add: route_xy_def route_y_def)
  have d: "deduplicateEndpoints [route_xy, route_y] = [route_xy]"
    by (simp add: deduplicateEndpoints_def k)
  from p d have r: "discoverEndpoints [(''/srv/app.py'', Some flask_colliding)] [] = Some [route_xy]"
    by (simp add: discoverEndpoints_def)
  from p t k d r show ?thesis by simp
qed

end
